theory Spec2Isabelle
  imports Main "HOL-Library.AList"
begin

section \<open>The XML node model (src/utils/xml.ts)\<close>

text \<open>
  A node of the order-preserving parse tree: an object with a single tag key holding the
  array of its children, plus the optional attribute object under the key \<open>:@\<close>
  (absent when the element has no attribute), or a text leaf \<open>{'#text': s}\<close>.
  An attribute object is kept as an association list in the order of \<open>Object.entries\<close>;
  attribute names carry the parser's prefix \<open>@_\<close>.

  A JavaScript string is modelled by the list of its UTF-8 bytes, so that the archive
  helpers \<open>strToU8\<close> and \<open>strFromU8\<close> are the identity.
\<close>

datatype XmlNode =
    Element string "(string \<times> string) list option" "XmlNode list"
  | Text string

text \<open>\<open>tagName in node\<close>, for the keys an object built by the parser or by
  \<open>createElement\<close> owns.\<close>

fun hasKey :: "string \<Rightarrow> XmlNode \<Rightarrow> bool" where
  "hasKey tagName (Element t a cs) = (tagName = t \<or> (tagName = '':@'' \<and> a \<noteq> None))"
| "hasKey tagName (Text s) = (tagName = ''#text'')"

text \<open>\<open>node[':@']\<close> followed by the optional lookup \<open>attrs?.[name]\<close>.\<close>

fun attrLookup :: "XmlNode \<Rightarrow> string \<Rightarrow> string option" where
  "attrLookup (Element t None cs) name = None"
| "attrLookup (Element t (Some attrs) cs) name = map_of attrs name"
| "attrLookup (Text s) name = None"

fun attrsOf :: "XmlNode \<Rightarrow> (string \<times> string) list option" where
  "attrsOf (Element t a cs) = a"
| "attrsOf (Text s) = None"

fun findElement :: "XmlNode list \<Rightarrow> string \<Rightarrow> XmlNode option" where
  "findElement [] tagName = None"
| "findElement (node # nodes) tagName =
     (if hasKey tagName node then Some node else findElement nodes tagName)"

text \<open>\<open>getChildren\<close> returns \<open>node[tagName]\<close> when it is an array and \<open>[]\<close> otherwise
  (a missing key, the attribute object, the string of a text leaf).\<close>

fun getChildren :: "XmlNode \<Rightarrow> string \<Rightarrow> XmlNode list" where
  "getChildren (Element t a cs) tagName = (if tagName = t then cs else [])"
| "getChildren (Text s) tagName = []"

definition createElement :: "string \<Rightarrow> (string \<times> string) list \<Rightarrow> XmlNode list \<Rightarrow> XmlNode" where
  "createElement tagName attrs children =
     Element tagName
       (if length attrs > 0 then Some (map (\<lambda>(key, v). (''@_'' @ key, v)) attrs) else None)
       children"

text \<open>\<open>cloneNode\<close> and \<open>cloneNodes\<close> copy through \<open>JSON.parse(JSON.stringify(...))\<close>:
  on trees of arrays, strings and string-valued objects the copy is structurally equal to
  the original, and values carry no identity here.\<close>

definition cloneNode :: "XmlNode \<Rightarrow> XmlNode" where
  "cloneNode node = node"

definition cloneNodes :: "XmlNode list \<Rightarrow> XmlNode list" where
  "cloneNodes nodes = nodes"

section \<open>Array helpers\<close>

text \<open>\<open>Array.prototype.splice(start, deleteCount)\<close> with no inserted items, and
  \<open>Array.prototype.slice(start, end)\<close>, on integer arguments: a negative index counts
  from the end, and both are clamped to the array.\<close>

definition relIndex :: "int \<Rightarrow> int \<Rightarrow> int" where
  "relIndex len k = (if k < 0 then max (len + k) 0 else min k len)"

definition splice :: "'a list \<Rightarrow> int \<Rightarrow> int \<Rightarrow> 'a list" where
  "splice xs start deleteCount =
     (let len = int (length xs);
          s = relIndex len start;
          c = min (max deleteCount 0) (len - s)
      in take (nat s) xs @ drop (nat (s + c)) xs)"

definition slice :: "'a list \<Rightarrow> int \<Rightarrow> int \<Rightarrow> 'a list" where
  "slice xs start end =
     (let len = int (length xs);
          k = relIndex len start;
          final = relIndex len end
      in take (nat (final - k)) (drop (nat k) xs))"

section \<open>The archive helpers (src/utils/zip.ts)\<close>

text \<open>
  \<open>ZipFiles\<close> is a \<open>Map\<close> from archive path to content: an association list in
  insertion order, the order \<open>for ... of\<close> visits; \<open>Map.set\<close> is \<open>AList.update\<close>, which
  overwrites in place or appends. The compression itself (\<open>unzipSync\<close>, \<open>zipSync\<close> of
  fflate) is outside the repository: \<open>readZip\<close> starts from the entries of the object
  \<open>unzipSync\<close> returned, and \<open>writeZip\<close> ends with the object \<open>zipData\<close> it hands to
  \<open>zipSync\<close>, whose entries are the parts of the package.
\<close>

type_synonym ZipFiles = "(string \<times> string) list"

definition endsWith :: "string \<Rightarrow> char \<Rightarrow> bool" where
  "endsWith path c = (path \<noteq> [] \<and> last path = c)"

fun readZipLoop :: "ZipFiles \<Rightarrow> (string \<times> string) list \<Rightarrow> ZipFiles" where
  "readZipLoop files [] = files"
| "readZipLoop files ((path, content) # rest) =
     (if \<not> endsWith path CHR ''/'' \<and> length content > 0
      then readZipLoop (AList.update path content files) rest
      else readZipLoop files rest)"

definition readZip :: "(string \<times> string) list \<Rightarrow> ZipFiles" where
  "readZip result = readZipLoop [] result"

fun writeZipLoop :: "(string \<times> string) list \<Rightarrow> ZipFiles \<Rightarrow> (string \<times> string) list" where
  "writeZipLoop zipData [] = zipData"
| "writeZipLoop zipData ((path, content) # rest) =
     (if endsWith path CHR ''/'' \<or> length content = 0
      then writeZipLoop zipData rest
      else writeZipLoop (AList.update path content zipData) rest)"

definition writeZip :: "ZipFiles \<Rightarrow> (string \<times> string) list" where
  "writeZip files = writeZipLoop [] files"

definition readZipText :: "ZipFiles \<Rightarrow> string \<Rightarrow> string option" where
  "readZipText files path = (case map_of files path of None \<Rightarrow> None | Some data \<Rightarrow> Some data)"

definition writeZipText :: "ZipFiles \<Rightarrow> string \<Rightarrow> string \<Rightarrow> ZipFiles" where
  "writeZipText files path content = AList.update path content files"

section \<open>The document (src/document.ts)\<close>

record PageInfo =
  index :: int
  startElement :: int
  endElement :: int

text \<open>
  The private fields of the class. \<open>files\<close> is the \<open>Map\<close> from archive path to
  content and \<open>namespaces\<close> the object of namespace declarations, both as association
  lists in insertion order; the assignment to a key of the object is \<open>AList.update\<close> too.
\<close>

record Document =
  files :: ZipFiles
  bodyElements :: "XmlNode list"
  documentParsed :: "XmlNode list"
  dirty :: bool
  namespaces :: "(string \<times> string) list"
  sectPr :: "XmlNode option"

definition newDocument :: Document where
  "newDocument = \<lparr>files = [], bodyElements = [], documentParsed = [], dirty = False,
     namespaces = [], sectPr = None\<rparr>"

definition create :: Document where
  "create = newDocument\<lparr>dirty := True\<rparr>"

subsection \<open>Page segmentation\<close>

text \<open>The inner loop of \<open>_paragraphHasPageBreak\<close> over the children of one run.\<close>

fun runHasPageBreak :: "XmlNode list \<Rightarrow> bool" where
  "runHasPageBreak [] = False"
| "runHasPageBreak (runChild # rest) =
     (if hasKey ''w:br'' runChild \<and> attrLookup runChild ''@_w:type'' = Some ''page''
      then True else runHasPageBreak rest)"

text \<open>The outer loop over the children of the paragraph.\<close>

fun childrenHavePageBreak :: "XmlNode list \<Rightarrow> bool" where
  "childrenHavePageBreak [] = False"
| "childrenHavePageBreak (child # rest) =
     (if hasKey ''w:r'' child \<and> runHasPageBreak (getChildren child ''w:r'')
      then True else childrenHavePageBreak rest)"

definition paragraphHasPageBreak :: "XmlNode \<Rightarrow> bool" where
  "paragraphHasPageBreak paragraph = childrenHavePageBreak (getChildren paragraph ''w:p'')"

definition hasPageBreak :: "XmlNode \<Rightarrow> bool" where
  "hasPageBreak element =
     (if hasKey ''w:p'' element then paragraphHasPageBreak element else False)"

text \<open>
  The scan of \<open>getPages\<close>: the elements still to visit, the loop counter \<open>i\<close>, and the
  three variables the loop updates (\<open>pages\<close>, \<open>currentPageStart\<close>, \<open>pageIndex\<close>).
\<close>

fun getPagesLoop ::
  "XmlNode list \<Rightarrow> int \<Rightarrow> PageInfo list \<Rightarrow> int \<Rightarrow> int \<Rightarrow> PageInfo list \<times> int \<times> int" where
  "getPagesLoop [] i pages currentPageStart pageIndex = (pages, currentPageStart, pageIndex)"
| "getPagesLoop (element # rest) i pages currentPageStart pageIndex =
     (if hasPageBreak element
      then getPagesLoop rest (i + 1)
             (pages @ [\<lparr>index = pageIndex, startElement = currentPageStart, endElement = i\<rparr>])
             (i + 1) (pageIndex + 1)
      else getPagesLoop rest (i + 1) pages currentPageStart pageIndex)"

definition getPages :: "Document \<Rightarrow> PageInfo list" where
  "getPages d =
     (case getPagesLoop (bodyElements d) 0 [] 0 0 of
        (pages, currentPageStart, pageIndex) \<Rightarrow>
          if currentPageStart < int (length (bodyElements d))
          then pages @ [\<lparr>index = pageIndex, startElement = currentPageStart,
                          endElement = int (length (bodyElements d)) - 1\<rparr>]
          else if length pages > 0
          then pages @ [\<lparr>index = pageIndex, startElement = -1, endElement = -1\<rparr>]
          else pages @ [\<lparr>index = 0, startElement = -1, endElement = -1\<rparr>])"

definition getPageCount :: "Document \<Rightarrow> nat" where
  "getPageCount d = length (getPages d)"

definition createPageBreakParagraph :: XmlNode where
  "createPageBreakParagraph =
     (let brElement = createElement ''w:br'' [(''w:type'', ''page'')] [];
          runElement = createElement ''w:r'' [] [brElement];
          paragraphElement = createElement ''w:p'' [] [runElement]
      in paragraphElement)"

definition addPageBreak :: "Document \<Rightarrow> Document" where
  "addPageBreak d = d\<lparr>dirty := True, bodyElements := bodyElements d @ [createPageBreakParagraph]\<rparr>"

subsection \<open>Removing a page\<close>

text \<open>
  A call either returns or throws an \<open>Error\<close> with a message; the state of the document
  after the call is returned beside the outcome, since a throw does not undo what the
  method did before it.
\<close>

datatype outcome = Returned | Thrown string

text \<open>A number in a template literal. JavaScript prints an integer of magnitude below
  \<open>10^21\<close> in decimal notation, which is what \<open>numberToString\<close> gives; from \<open>10^21\<close> on it
  prints an exponent, so the digits of \<open>numberToString\<close> are those of the program only
  below that bound, and every statement about the text of the message carries the
  bound.\<close>

function natToString :: "nat \<Rightarrow> string" where
  "natToString n =
     (if n < 10 then [''0123456789'' ! n]
      else natToString (n div 10) @ [''0123456789'' ! (n mod 10)])"
  by pat_completeness auto
termination
  by (relation "measure id") auto

definition numberToString :: "int \<Rightarrow> string" where
  "numberToString k = (if k < 0 then ''-'' @ natToString (nat (- k)) else natToString (nat k))"

definition boundsMessage :: "int \<Rightarrow> nat \<Rightarrow> string" where
  "boundsMessage idx count =
     ''Page index out of bounds: '' @ numberToString idx @ ''. Document has ''
       @ numberToString (int count) @ '' page(s).''"

text \<open>\<open>removePage(index)\<close>, on an integer index.\<close>

definition removePage :: "Document \<Rightarrow> int \<Rightarrow> outcome \<times> Document" where
  "removePage d idx =
     (let pgs = getPages d in
      if idx < 0 \<or> idx \<ge> int (length pgs)
      then (Thrown (boundsMessage idx (length pgs)), d)
      else
        let d1 = d\<lparr>dirty := True\<rparr>;
            page = pgs ! nat idx
        in if startElement page = -1
           then (if idx > 0 \<and> endElement (pgs ! nat (idx - 1)) \<ge> 0
                 then let prevPage = pgs ! nat (idx - 1)
                      in (Returned,
                          d1\<lparr>bodyElements := splice (bodyElements d1) (endElement prevPage) 1\<rparr>)
                 else (Returned, d1))
           else
             let removeCount = endElement page - startElement page + 1
             in (Returned,
                 d1\<lparr>bodyElements := splice (bodyElements d1) (startElement page) removeCount\<rparr>))"

subsection \<open>Merging\<close>

record MergeOptions =
  pages :: "int list option"
  addPageBreakBefore :: "bool option"

definition defaultOptions :: MergeOptions where
  "defaultOptions = \<lparr>pages = None, addPageBreakBefore = None\<rparr>"

text \<open>\<open>_mergeNamespaces\<close>: the loop over \<open>Object.entries(sourceNamespaces)\<close>. The keys
  are names of namespace attributes (they begin with \<open>xmlns\<close>, see \<open>_parseDocument\<close>), none
  of which an object inherits, so \<open>key in this._namespaces\<close> asks for an own key.\<close>

fun mergeNamespacesLoop ::
  "(string \<times> string) list \<Rightarrow> (string \<times> string) list \<Rightarrow> (string \<times> string) list" where
  "mergeNamespacesLoop ns [] = ns"
| "mergeNamespacesLoop ns ((key, v) # rest) =
     (if \<not> (key \<in> set (map fst ns))
      then mergeNamespacesLoop (AList.update key v ns) rest
      else mergeNamespacesLoop ns rest)"

definition mergeNamespaces :: "Document \<Rightarrow> (string \<times> string) list \<Rightarrow> Document" where
  "mergeNamespaces d sourceNamespaces =
     d\<lparr>namespaces := mergeNamespacesLoop (namespaces d) sourceNamespaces\<rparr>"

text \<open>\<open>_copyDocumentStructure\<close>: the section properties, then the loop over the source's
  parts.\<close>

fun copyFilesLoop :: "ZipFiles \<Rightarrow> ZipFiles \<Rightarrow> ZipFiles" where
  "copyFilesLoop fs [] = fs"
| "copyFilesLoop fs ((path, content) # rest) =
     (if path = ''word/document.xml'' then copyFilesLoop fs rest
      else if \<not> (path \<in> set (map fst fs))
      then copyFilesLoop (AList.update path content fs) rest
      else copyFilesLoop fs rest)"

definition copyDocumentStructure :: "Document \<Rightarrow> Document \<Rightarrow> Document" where
  "copyDocumentStructure d sourceDoc =
     (let d1 = (case sectPr sourceDoc of
                  Some node \<Rightarrow> if sectPr d = None then d\<lparr>sectPr := Some (cloneNode node)\<rparr> else d
                | None \<Rightarrow> d)
      in d1\<lparr>files := copyFilesLoop (files d1) (files sourceDoc)\<rparr>)"

text \<open>The loop over \<open>pagesToMerge\<close>, appending the clones of each page's elements.\<close>

fun mergePagesLoop :: "Document \<Rightarrow> XmlNode list \<Rightarrow> PageInfo list \<Rightarrow> Document" where
  "mergePagesLoop d sourceBody [] = d"
| "mergePagesLoop d sourceBody (page # rest) =
     (if startElement page = -1 then mergePagesLoop d sourceBody rest
      else
        let elements = slice sourceBody (startElement page) (endElement page + 1);
            clonedElements = cloneNodes elements
        in mergePagesLoop (d\<lparr>bodyElements := bodyElements d @ clonedElements\<rparr>) sourceBody rest)"

text \<open>
  \<open>merge(source, options)\<close> on a source that is a document already (a path or a buffer is
  first loaded by \<open>fromFile\<close> or \<open>fromBuffer\<close>), with integer page indices. The method has
  no \<open>throw\<close>: it is a total function of the two documents. When the source is the target
  itself the page ranges, computed before anything is appended, lie in the part of the
  array that the appended elements leave as it was, so slicing the source's elements as
  they were on entry is what the method does there too.
\<close>

definition merge :: "Document \<Rightarrow> Document \<Rightarrow> MergeOptions \<Rightarrow> Document" where
  "merge d sourceDoc options =
     (let d1 = d\<lparr>dirty := True\<rparr>;
          d2 = mergeNamespaces d1 (namespaces sourceDoc);
          isFirstMerge = (length (bodyElements d2) = 0 \<and> length (files d2) = 0);
          d3 = (if isFirstMerge then copyDocumentStructure d2 sourceDoc else d2);
          sourcePages = getPages sourceDoc;
          breakBefore = (addPageBreakBefore options \<noteq> Some False);
          pagesToMerge =
            (case pages options of
               Some requested \<Rightarrow>
                 map (\<lambda>idx. sourcePages ! nat idx)
                   (filter (\<lambda>idx. idx \<ge> 0 \<and> idx < int (length sourcePages)) requested)
             | None \<Rightarrow> sourcePages)
      in if length pagesToMerge = 0 then d3
         else
           let d4 = (if breakBefore \<and> length (bodyElements d3) > 0
                     then d3\<lparr>bodyElements := bodyElements d3 @ [createPageBreakParagraph]\<rparr>
                     else d3)
           in mergePagesLoop d4 (bodyElements sourceDoc) pagesToMerge)"

subsection \<open>Loading\<close>

text \<open>The loop of \<open>_parseDocument\<close> over the attributes of the document element.\<close>

fun parseNamespacesLoop ::
  "(string \<times> string) list \<Rightarrow> (string \<times> string) list \<Rightarrow> (string \<times> string) list" where
  "parseNamespacesLoop ns [] = ns"
| "parseNamespacesLoop ns ((key, v) # rest) =
     (if take 7 key = ''@_xmlns''
      then parseNamespacesLoop (AList.update (drop 2 key) v ns) rest
      else parseNamespacesLoop ns rest)"

text \<open>\<open>parseXml\<close> belongs to the XML library: the parser is a parameter.\<close>

definition parseDocument :: "(string \<Rightarrow> XmlNode list) \<Rightarrow> Document \<Rightarrow> string \<Rightarrow> Document" where
  "parseDocument parseXml d xml =
     (let d1 = d\<lparr>documentParsed := parseXml xml\<rparr> in
      case findElement (documentParsed d1) ''w:document'' of
        None \<Rightarrow> d1
      | Some documentNode \<Rightarrow>
          let d2 = (case attrsOf documentNode of
                      Some attrs \<Rightarrow> d1\<lparr>namespaces := parseNamespacesLoop (namespaces d1) attrs\<rparr>
                    | None \<Rightarrow> d1);
              documentChildren = getChildren documentNode ''w:document''
          in case findElement documentChildren ''w:body'' of
               None \<Rightarrow> d2
             | Some bodyNode \<Rightarrow>
                 let bodyChildren = getChildren bodyNode ''w:body'';
                     d3 = (case findElement bodyChildren ''w:sectPr'' of
                             Some sectPrNode \<Rightarrow> d2\<lparr>sectPr := Some sectPrNode\<rparr>
                           | None \<Rightarrow> d2)
                 in d3\<lparr>bodyElements := filter (\<lambda>child. \<not> hasKey ''w:sectPr'' child) bodyChildren\<rparr>)"

text \<open>\<open>fromBuffer\<close>, from the entries \<open>unzipSync\<close> found in the buffer.\<close>

definition fromBuffer :: "(string \<Rightarrow> XmlNode list) \<Rightarrow> (string \<times> string) list \<Rightarrow> Document" where
  "fromBuffer parseXml result =
     (let doc = newDocument\<lparr>files := readZip result\<rparr> in
      case readZipText (files doc) ''word/document.xml'' of
        Some documentXml \<Rightarrow>
          if documentXml \<noteq> [] then parseDocument parseXml doc documentXml else doc
      | None \<Rightarrow> doc)"

subsection \<open>Saving\<close>

definition W_NS :: string where
  "W_NS = ''http://schemas.openxmlformats.org/wordprocessingml/2006/main''"

definition R_NS :: string where
  "R_NS = ''http://schemas.openxmlformats.org/officeDocument/2006/relationships''"

definition PKG_NS :: string where
  "PKG_NS = ''http://schemas.openxmlformats.org/package/2006/relationships''"

definition CT_NS :: string where
  "CT_NS = ''http://schemas.openxmlformats.org/package/2006/content-types''"

text \<open>The XML declaration and the line feed every generated part begins with.\<close>

definition xmlDeclaration :: string where
  \<open>xmlDeclaration = ''<?xml version="1.0" encoding="UTF-8" standalone="yes"?>'' @ [CHR 0x0A]\<close>

text \<open>\<open>stringifyXml\<close> belongs to the XML library: the builder is a parameter of every
  function that serializes.\<close>

definition createContentTypes :: "(XmlNode list \<Rightarrow> string) \<Rightarrow> string" where
  "createContentTypes stringifyXml =
     (let types = createElement ''Types'' [(''xmlns'', CT_NS)]
            [createElement ''Default''
               [(''Extension'', ''rels''),
                (''ContentType'', ''application/vnd.openxmlformats-package.relationships+xml'')] [],
             createElement ''Default''
               [(''Extension'', ''xml''), (''ContentType'', ''application/xml'')] [],
             createElement ''Override''
               [(''PartName'', ''/word/document.xml''),
                (''ContentType'',
                 ''application/vnd.openxmlformats-officedocument.wordprocessingml.document.main+xml'')]
               []]
      in xmlDeclaration @ stringifyXml [types])"

definition createRootRels :: "(XmlNode list \<Rightarrow> string) \<Rightarrow> string" where
  "createRootRels stringifyXml =
     (let rels = createElement ''Relationships'' [(''xmlns'', PKG_NS)]
            [createElement ''Relationship''
               [(''Id'', ''rId1''),
                (''Type'',
                 ''http://schemas.openxmlformats.org/officeDocument/2006/relationships/officeDocument''),
                (''Target'', ''word/document.xml'')] []]
      in xmlDeclaration @ stringifyXml [rels])"

definition createDocumentRels :: "(XmlNode list \<Rightarrow> string) \<Rightarrow> string" where
  "createDocumentRels stringifyXml =
     (let rels = createElement ''Relationships'' [(''xmlns'', PKG_NS)] []
      in xmlDeclaration @ stringifyXml [rels])"

definition ensureBasicStructure :: "(XmlNode list \<Rightarrow> string) \<Rightarrow> Document \<Rightarrow> Document" where
  "ensureBasicStructure stringifyXml d =
     (let d1 = (if \<not> (''[Content_Types].xml'' \<in> set (map fst (files d)))
                then d\<lparr>files := writeZipText (files d) ''[Content_Types].xml''
                                  (createContentTypes stringifyXml)\<rparr>
                else d);
          d2 = (if \<not> (''_rels/.rels'' \<in> set (map fst (files d1)))
                then d1\<lparr>files := writeZipText (files d1) ''_rels/.rels''
                                   (createRootRels stringifyXml)\<rparr>
                else d1);
          d3 = (if \<not> (''word/_rels/document.xml.rels'' \<in> set (map fst (files d2)))
                then d2\<lparr>files := writeZipText (files d2) ''word/_rels/document.xml.rels''
                                   (createDocumentRels stringifyXml)\<rparr>
                else d2)
      in d3)"

definition getNamespaceAttributes :: "Document \<Rightarrow> (string \<times> string) list" where
  "getNamespaceAttributes d =
     (if length (namespaces d) > 0 then namespaces d
      else [(''xmlns:w'', W_NS), (''xmlns:r'', R_NS)])"

definition defaultSectPr :: XmlNode where
  "defaultSectPr =
     createElement ''w:sectPr'' []
       [createElement ''w:pgSz'' [(''w:w'', ''12240''), (''w:h'', ''15840'')] [],
        createElement ''w:pgMar''
          [(''w:top'', ''1440''), (''w:right'', ''1440''), (''w:bottom'', ''1440''),
           (''w:left'', ''1440''), (''w:header'', ''720''), (''w:footer'', ''720''),
           (''w:gutter'', ''0'')] []]"

definition updateDocumentXml :: "(XmlNode list \<Rightarrow> string) \<Rightarrow> Document \<Rightarrow> Document" where
  "updateDocumentXml stringifyXml d =
     (let bodyChildren =
            (case sectPr d of
               Some node \<Rightarrow> bodyElements d @ [cloneNode node]
             | None \<Rightarrow> bodyElements d @ [defaultSectPr]);
          body = createElement ''w:body'' [] bodyChildren;
          namespaceAttrs = getNamespaceAttributes d;
          document = createElement ''w:document'' namespaceAttrs [body];
          xml = xmlDeclaration @ stringifyXml [document]
      in d\<lparr>files := writeZipText (files d) ''word/document.xml'' xml\<rparr>)"

definition updateFiles :: "(XmlNode list \<Rightarrow> string) \<Rightarrow> Document \<Rightarrow> Document" where
  "updateFiles stringifyXml d =
     (if \<not> dirty d \<and> length (files d) > 0 then d
      else updateDocumentXml stringifyXml (ensureBasicStructure stringifyXml d))"

text \<open>\<open>toBuffer\<close>: the parts handed to the compressor, and the document after the call
  (\<open>_updateFiles\<close> writes to the part store).\<close>

definition toBuffer :: "(XmlNode list \<Rightarrow> string) \<Rightarrow> Document \<Rightarrow> (string \<times> string) list \<times> Document" where
  "toBuffer stringifyXml d =
     (let d1 = updateFiles stringifyXml d in (writeZip (files d1), d1))"

section \<open>Template substitution, modelled from the specification\<close>

text \<open>
  Modelled from the spec: the method \<open>render(data, options)\<close> of the class, whose
  implementation is not among the sources (its tests and the types \<open>TemplateValue\<close>,
  \<open>TemplateData\<close> and \<open>TemplateOptions\<close> are). The model follows section 4.5 of the
  specification, for the default pattern \<open>{identifier}\<close> and for the body of the document;
  the header and footer parts, which \<open>render\<close> reaches through the relationship records,
  are left out.
\<close>

datatype TemplateValue = VString string | VNumber int | VBoolean bool | VNull

record TemplateOptions =
  removeMissing :: bool
  transform :: "(TemplateValue \<Rightarrow> string \<Rightarrow> string) option"

text \<open>Modelled from the spec: the characters of an identifier, "alphanumeric, underscore,
  dot, hyphen" (\<open>[a-zA-Z0-9_.-]\<close> in the default pattern of \<open>TemplateOptions\<close>).\<close>

definition isKeyChar :: "char \<Rightarrow> bool" where
  "isKeyChar c = (c \<in> set ''abcdefghijklmnopqrstuvwxyzABCDEFGHIJKLMNOPQRSTUVWXYZ0123456789_.-'')"

text \<open>Modelled from the spec: the default conversion of a scalar to text, \<open>null\<close> and
  \<open>undefined\<close> becoming the empty string, unless \<open>transform\<close> is given. How the language
  prints a number is a parameter, \<open>numberText\<close>, of the model.\<close>

definition valueText ::
  "(int \<Rightarrow> string) \<Rightarrow> TemplateOptions \<Rightarrow> TemplateValue \<Rightarrow> string \<Rightarrow> string" where
  "valueText numberText options v key =
     (case transform options of
        Some f \<Rightarrow> f v key
      | None \<Rightarrow>
          (case v of
             VString s \<Rightarrow> s
           | VNumber n \<Rightarrow> numberText n
           | VBoolean b \<Rightarrow> (if b then ''true'' else ''false'')
           | VNull \<Rightarrow> []))"

text \<open>Modelled from the spec: what stands in for the placeholder of a key. A key the data
  lacks leaves the placeholder as it is, or removes it when \<open>removeMissing\<close> is set.\<close>

definition resolve ::
  "(int \<Rightarrow> string) \<Rightarrow> (string \<times> TemplateValue) list \<Rightarrow> TemplateOptions \<Rightarrow> string \<Rightarrow> string" where
  "resolve numberText data options key =
     (case map_of data key of
        Some v \<Rightarrow> valueText numberText options v key
      | None \<Rightarrow> if removeMissing options then [] else ''{'' @ key @ ''}'')"

text \<open>Modelled from the spec: the pattern "applied left-to-right, non-overlapping". At an
  opening brace the longest run of identifier characters is the key, and it is a match
  when the key is not empty and a closing brace follows.\<close>

function substitute :: "(string \<Rightarrow> string) \<Rightarrow> string \<Rightarrow> string" where
  "substitute r [] = []"
| "substitute r (c # cs) =
     (if c = CHR ''{'' \<and> takeWhile isKeyChar cs \<noteq> [] \<and> dropWhile isKeyChar cs \<noteq> []
         \<and> hd (dropWhile isKeyChar cs) = CHR ''}''
      then r (takeWhile isKeyChar cs) @ substitute r (tl (dropWhile isKeyChar cs))
      else c # substitute r cs)"
  by pat_completeness auto
termination
proof (relation "measure (\<lambda>(r, s). length s)")
  show "wf (measure (\<lambda>(r, s). length s))" by simp
next
  fix r :: "string \<Rightarrow> string" and c :: char and cs :: string
  have "length (tl (dropWhile isKeyChar cs)) \<le> length cs"
    using length_dropWhile_le[of isKeyChar cs] by simp
  then show "((r, tl (dropWhile isKeyChar cs)), (r, c # cs)) \<in> measure (\<lambda>(r, s). length s)"
    by simp
next
  fix r :: "string \<Rightarrow> string" and c :: char and cs :: string
  show "((r, cs), (r, c # cs)) \<in> measure (\<lambda>(r, s). length s)" by simp
qed

function hasMatch :: "string \<Rightarrow> bool" where
  "hasMatch [] = False"
| "hasMatch (c # cs) =
     (if c = CHR ''{'' \<and> takeWhile isKeyChar cs \<noteq> [] \<and> dropWhile isKeyChar cs \<noteq> []
         \<and> hd (dropWhile isKeyChar cs) = CHR ''}''
      then True
      else hasMatch cs)"
  by pat_completeness auto
termination
  by (relation "measure length") auto

text \<open>Modelled from the spec: the text of a paragraph, "the text of all text-leaf runs
  within a paragraph" concatenated. A text-leaf run is a run with a \<open>w:t\<close> child.\<close>

fun leafText :: "XmlNode \<Rightarrow> string" where
  "leafText (Text s) = s"
| "leafText (Element t a cs) = []"

definition isTextRun :: "XmlNode \<Rightarrow> bool" where
  "isTextRun node = (hasKey ''w:r'' node
     \<and> filter (hasKey ''w:t'') (getChildren node ''w:r'') \<noteq> [])"

definition runText :: "XmlNode \<Rightarrow> string" where
  "runText run =
     concat (map (\<lambda>t. concat (map leafText (getChildren t ''w:t'')))
       (filter (hasKey ''w:t'') (getChildren run ''w:r'')))"

definition paragraphText :: "XmlNode \<Rightarrow> string" where
  "paragraphText paragraph =
     concat (map runText (filter isTextRun (getChildren paragraph ''w:p'')))"

text \<open>Modelled from the spec: the result is written back "as a single consolidated text run
  replacing the original set of runs". The first text-leaf run keeps what it holds
  beside its text and receives the whole text; the other text-leaf runs go.\<close>

definition withText :: "XmlNode \<Rightarrow> string \<Rightarrow> XmlNode" where
  "withText run newText =
     Element ''w:r'' (attrsOf run)
       (filter (\<lambda>child. \<not> hasKey ''w:t'' child) (getChildren run ''w:r'')
          @ [Element ''w:t'' None [Text newText]])"

fun replaceRuns :: "string \<Rightarrow> bool \<Rightarrow> XmlNode list \<Rightarrow> XmlNode list" where
  "replaceRuns newText written [] = []"
| "replaceRuns newText written (child # rest) =
     (if isTextRun child
      then (if written then replaceRuns newText True rest
            else withText child newText # replaceRuns newText True rest)
      else child # replaceRuns newText written rest)"

text \<open>Modelled from the spec: one paragraph. "Paragraphs containing no placeholder are
  left byte-identical."\<close>

definition renderParagraph ::
  "(int \<Rightarrow> string) \<Rightarrow> (string \<times> TemplateValue) list \<Rightarrow> TemplateOptions \<Rightarrow> XmlNode \<Rightarrow> XmlNode" where
  "renderParagraph numberText data options paragraph =
     (if hasMatch (paragraphText paragraph)
      then Element ''w:p'' (attrsOf paragraph)
             (replaceRuns (substitute (resolve numberText data options) (paragraphText paragraph))
                False
                (getChildren paragraph ''w:p''))
      else paragraph)"

text \<open>Modelled from the spec: every paragraph of the body is rendered, those inside the
  cells of a table too.\<close>

fun renderNode ::
  "(int \<Rightarrow> string) \<Rightarrow> (string \<times> TemplateValue) list \<Rightarrow> TemplateOptions \<Rightarrow> XmlNode \<Rightarrow> XmlNode" where
  "renderNode numberText data options (Text s) = Text s"
| "renderNode numberText data options (Element t a cs) =
     (if t = ''w:p'' then renderParagraph numberText data options (Element t a cs)
      else Element t a (map (renderNode numberText data options) cs))"

definition render ::
  "(int \<Rightarrow> string) \<Rightarrow> Document \<Rightarrow> (string \<times> TemplateValue) list \<Rightarrow> TemplateOptions \<Rightarrow> Document" where
  "render numberText d data options =
     d\<lparr>dirty := True,
       bodyElements := map (renderNode numberText data options) (bodyElements d)\<rparr>"

definition defaultTemplateOptions :: TemplateOptions where
  "defaultTemplateOptions = \<lparr>removeMissing = False, transform = None\<rparr>"

section \<open>Notions used in the statements\<close>

text \<open>The positions of the break-bearing body elements, in increasing order, and the
  list of the positions a page covers (none for the sentinel page).\<close>

definition breakPositions :: "XmlNode list \<Rightarrow> nat list" where
  "breakPositions body = filter (\<lambda>i. hasPageBreak (body ! i)) [0..<length body]"

definition pageRange :: "PageInfo \<Rightarrow> int list" where
  "pageRange p = (if startElement p = -1 then [] else [startElement p .. endElement p])"

text \<open>The pages the scan of \<open>getPages\<close> adds, and the two counters it ends with.\<close>

definition loopPages :: "XmlNode list \<Rightarrow> int \<Rightarrow> int \<Rightarrow> int \<Rightarrow> PageInfo list" where
  "loopPages es i cps pidx = fst (getPagesLoop es i [] cps pidx)"

definition loopStart :: "XmlNode list \<Rightarrow> int \<Rightarrow> int \<Rightarrow> int \<Rightarrow> int" where
  "loopStart es i cps pidx = fst (snd (getPagesLoop es i [] cps pidx))"

definition loopIndex :: "XmlNode list \<Rightarrow> int \<Rightarrow> int \<Rightarrow> int \<Rightarrow> int" where
  "loopIndex es i cps pidx = snd (snd (getPagesLoop es i [] cps pidx))"

definition selectedPages :: "Document \<Rightarrow> MergeOptions \<Rightarrow> PageInfo list" where
  "selectedPages sourceDoc options =
     (case pages options of
        Some requested \<Rightarrow>
          map (\<lambda>idx. getPages sourceDoc ! nat idx)
            (filter (\<lambda>idx. idx \<ge> 0 \<and> idx < int (length (getPages sourceDoc))) requested)
      | None \<Rightarrow> getPages sourceDoc)"

definition pageElements :: "XmlNode list \<Rightarrow> PageInfo \<Rightarrow> XmlNode list" where
  "pageElements body p =
     (if startElement p = -1 then [] else slice body (startElement p) (endElement p + 1))"

text \<open>The document on which \<open>merge\<close> starts to append: the flag set, the namespaces
  merged, and the structure copied when this is the first merge.\<close>

definition mergePrepared :: "Document \<Rightarrow> Document \<Rightarrow> Document" where
  "mergePrepared d sourceDoc =
     (let d2 = mergeNamespaces (d\<lparr>dirty := True\<rparr>) (namespaces sourceDoc)
      in if length (bodyElements d2) = 0 \<and> length (files d2) = 0
         then copyDocumentStructure d2 sourceDoc else d2)"

definition mergeAll :: "Document \<Rightarrow> (Document \<times> MergeOptions) list \<Rightarrow> Document" where
  "mergeAll d sources = foldl (\<lambda>target (sourceDoc, options). merge target sourceDoc options) d sources"

fun firstWriter :: "(string \<times> string) list list \<Rightarrow> string \<Rightarrow> string option" where
  "firstWriter [] key = None"
| "firstWriter (ns # rest) key =
     (case map_of ns key of Some v \<Rightarrow> Some v | None \<Rightarrow> firstWriter rest key)"

text \<open>The paragraphs of a node and of a document, in document order: the body elements
  that are paragraphs and the paragraphs inside the other body elements (the cells of a
  table), which are the paragraphs \<open>renderNode\<close> reaches.\<close>

fun paragraphsOf :: "XmlNode \<Rightarrow> XmlNode list" where
  "paragraphsOf (Text s) = []"
| "paragraphsOf (Element t a cs) =
     (if t = ''w:p'' then [Element t a cs] else concat (map paragraphsOf cs))"

definition docParagraphs :: "Document \<Rightarrow> XmlNode list" where
  "docParagraphs d = concat (map paragraphsOf (bodyElements d))"

definition requiredParts :: "string list" where
  "requiredParts = [''[Content_Types].xml'', ''_rels/.rels'', ''word/document.xml'',
     ''word/_rels/document.xml.rels'']"

text \<open>What holds of a part store: a path once, no path of a directory and no empty
  content. \<open>readZip\<close> lets nothing else in, and the class writes nothing else.\<close>

definition filesOk :: "ZipFiles \<Rightarrow> bool" where
  "filesOk fs = (distinct (map fst fs)
     \<and> list_all (\<lambda>(path, content). \<not> endsWith path CHR ''/'' \<and> content \<noteq> []) fs)"

definition namespacesOk :: "(string \<times> string) list \<Rightarrow> bool" where
  "namespacesOk ns = (distinct (map fst ns) \<and> list_all (\<lambda>(key, v). take 5 key = ''xmlns'') ns)"

text \<open>The documents a caller can hold: made by \<open>create\<close> or \<open>fromBuffer\<close> (on any archive
  and whatever the parser returns), then changed by the methods of the class that
  \<open>src/document.ts\<close> holds.\<close>

inductive reachable :: "Document \<Rightarrow> bool" where
  reach_create: "reachable create"
| reach_fromBuffer: "reachable (fromBuffer parseXml result)"
| reach_addPageBreak: "reachable d \<Longrightarrow> reachable (addPageBreak d)"
| reach_removePage: "reachable d \<Longrightarrow> reachable (snd (removePage d idx))"
| reach_merge: "reachable d \<Longrightarrow> reachable sourceDoc \<Longrightarrow> reachable (merge d sourceDoc options)"
| reach_toBuffer: "reachable d \<Longrightarrow> reachable (snd (toBuffer stringifyXml d))"

section \<open>Example documents\<close>

text \<open>A paragraph with one run of text, and two bodies built from it.\<close>

definition para :: "string \<Rightarrow> XmlNode" where
  "para s = Element ''w:p'' None [Element ''w:r'' None [Element ''w:t'' None [Text s]]]"

definition exampleBody :: "XmlNode list" where
  "exampleBody = [para ''a'', createPageBreakParagraph, para ''b'', para ''c'',
     createPageBreakParagraph]"

definition exampleDoc :: Document where
  "exampleDoc = create\<lparr>bodyElements := exampleBody\<rparr>"

definition exampleTarget :: Document where
  "exampleTarget = create\<lparr>bodyElements := [para ''t'']\<rparr>"

definition exampleSource :: Document where
  "exampleSource = create\<lparr>bodyElements :=
     [para ''a'', createPageBreakParagraph, para ''b'', createPageBreakParagraph, para ''c'']\<rparr>"

definition noPages :: MergeOptions where
  "noPages = \<lparr>pages = Some [], addPageBreakBefore = None\<rparr>"

definition farPages :: MergeOptions where
  "farPages = \<lparr>pages = Some [10, 20, 30, -1], addPageBreakBefore = None\<rparr>"

definition nsTarget :: Document where
  "nsTarget = create\<lparr>namespaces := [(''xmlns:w'', ''urn:target'')]\<rparr>"

definition nsSourceA :: Document where
  "nsSourceA = create\<lparr>namespaces := [(''xmlns:w'', ''urn:a''), (''xmlns:r'', ''urn:a'')]\<rparr>"

definition nsSourceB :: Document where
  "nsSourceB = create\<lparr>namespaces := [(''xmlns:r'', ''urn:b''), (''xmlns:w14'', ''urn:b'')]\<rparr>"

text \<open>Two archives for the examples, and the parser on the two texts they hold.\<close>

definition seedXml :: string where
  "seedXml = ''<w:document><w:body><w:sectPr/></w:body></w:document>''"

definition letterXml :: string where
  "letterXml = ''<w:document><w:body><w:p/><w:sectPr><w:pgSz/></w:sectPr></w:body></w:document>''"

definition exampleParser :: "string \<Rightarrow> XmlNode list" where
  "exampleParser xml =
     (if xml = seedXml
      then [Element ''w:document'' None [Element ''w:body'' None [Element ''w:sectPr'' None []]]]
      else if xml = letterXml
      then [Element ''w:document'' None
              [Element ''w:body'' None
                 [Element ''w:p'' None [],
                  Element ''w:sectPr'' None [Element ''w:pgSz'' None []]]]]
      else [])"

definition seedSource :: Document where
  "seedSource = fromBuffer exampleParser [(''word/document.xml'', seedXml)]"

definition letterSource :: Document where
  "letterSource = fromBuffer exampleParser
     [(''word/'', []), (''word/styles.xml'', ''<w:styles/>''), (''word/document.xml'', letterXml)]"

definition seeded :: Document where
  "seeded = merge create seedSource noPages"

definition exampleBuilder :: "XmlNode list \<Rightarrow> string" where
  "exampleBuilder nodes = ''<xml/>''"

definition textRun :: "string \<Rightarrow> XmlNode" where
  "textRun s = Element ''w:r'' None [Element ''w:t'' None [Text s]]"

text \<open>The white space between two elements, which the parser keeps as a text node; the
  paragraph of the repository's test of a split placeholder, as parsed; and a table whose
  cell holds a paragraph that cuts the placeholder in three.\<close>

definition gap :: XmlNode where
  "gap = Text (CHR 0x0A # ''      '')"

definition splitParagraph :: XmlNode where
  "splitParagraph = Element ''w:p'' None [gap, textRun ''{na'', gap, textRun ''me}'', gap]"

definition greetingParagraph :: XmlNode where
  "greetingParagraph =
     Element ''w:p'' None [textRun ''Dear {'', textRun ''na'', gap, textRun ''me},'']"

definition splitDoc :: Document where
  "splitDoc = (fromBuffer exampleParser [])\<lparr>bodyElements :=
     [splitParagraph,
      Element ''w:tbl'' None [Element ''w:tr'' None [Element ''w:tc'' None [greetingParagraph]]]]\<rparr>"

section \<open>Page segmentation\<close>

lemma breakPositions_Nil: "breakPositions [] = []"
  by (simp add: breakPositions_def)

lemma breakPositions_Cons:
  "breakPositions (e # es) = (if hasPageBreak e then [0] else []) @ map Suc (breakPositions es)"
proof -
  have "[0..<length (e # es)] = 0 # map Suc [0..<length es]"
    by (simp add: upt_conv_Cons map_Suc_upt del: upt_Suc)
  then show ?thesis
    by (simp add: breakPositions_def filter_map comp_def del: upt_Suc)
qed

lemma getPagesLoop_acc:
  "getPagesLoop es i acc cps pidx =
     (acc @ fst (getPagesLoop es i [] cps pidx), snd (getPagesLoop es i [] cps pidx))"
proof (induction es arbitrary: i acc cps pidx)
  case Nil
  show ?case by simp
next
  case (Cons e es)
  show ?case
  proof (cases "hasPageBreak e")
    case True
    let ?p = "\<lparr>index = pidx, startElement = cps, endElement = i\<rparr>"
    have "getPagesLoop (e # es) i acc cps pidx = getPagesLoop es (i + 1) (acc @ [?p]) (i + 1) (pidx + 1)"
      using True by simp
    also have "\<dots> = ((acc @ [?p]) @ fst (getPagesLoop es (i + 1) [] (i + 1) (pidx + 1)),
        snd (getPagesLoop es (i + 1) [] (i + 1) (pidx + 1)))"
      by (rule Cons.IH)
    finally have a: "getPagesLoop (e # es) i acc cps pidx =
       (acc @ ?p # fst (getPagesLoop es (i + 1) [] (i + 1) (pidx + 1)),
        snd (getPagesLoop es (i + 1) [] (i + 1) (pidx + 1)))" by simp
    have "getPagesLoop (e # es) i [] cps pidx = getPagesLoop es (i + 1) ([] @ [?p]) (i + 1) (pidx + 1)"
      using True by simp
    also have "\<dots> = (([] @ [?p]) @ fst (getPagesLoop es (i + 1) [] (i + 1) (pidx + 1)),
        snd (getPagesLoop es (i + 1) [] (i + 1) (pidx + 1)))"
      by (rule Cons.IH)
    finally have b: "getPagesLoop (e # es) i [] cps pidx =
       (?p # fst (getPagesLoop es (i + 1) [] (i + 1) (pidx + 1)),
        snd (getPagesLoop es (i + 1) [] (i + 1) (pidx + 1)))" by simp
    show ?thesis by (simp only: a b fst_conv snd_conv)
  next
    case False
    then show ?thesis using Cons.IH[of "i + 1" acc cps pidx] by simp
  qed
qed

lemma loop_Nil:
  "loopPages [] i cps pidx = []" "loopStart [] i cps pidx = cps" "loopIndex [] i cps pidx = pidx"
  by (simp_all add: loopPages_def loopStart_def loopIndex_def)

lemma loop_Cons_break:
  assumes "hasPageBreak e"
  shows "loopPages (e # es) i cps pidx =
           \<lparr>index = pidx, startElement = cps, endElement = i\<rparr> # loopPages es (i + 1) (i + 1) (pidx + 1)"
    and "loopStart (e # es) i cps pidx = loopStart es (i + 1) (i + 1) (pidx + 1)"
    and "loopIndex (e # es) i cps pidx = loopIndex es (i + 1) (i + 1) (pidx + 1)"
  using assms
    getPagesLoop_acc[of es "i + 1" "[\<lparr>index = pidx, startElement = cps, endElement = i\<rparr>]" "i + 1" "pidx + 1"]
  by (simp_all add: loopPages_def loopStart_def loopIndex_def)

lemma loop_Cons_plain:
  assumes "\<not> hasPageBreak e"
  shows "loopPages (e # es) i cps pidx = loopPages es (i + 1) cps pidx"
    and "loopStart (e # es) i cps pidx = loopStart es (i + 1) cps pidx"
    and "loopIndex (e # es) i cps pidx = loopIndex es (i + 1) cps pidx"
  using assms by (simp_all add: loopPages_def loopStart_def loopIndex_def)

lemma loopPages_length: "length (loopPages es i cps pidx) = length (breakPositions es)"
  by (induction es arbitrary: i cps pidx)
     (simp_all add: loop_Nil breakPositions_Nil breakPositions_Cons loop_Cons_break loop_Cons_plain)

lemma loopPages_ends:
  "map endElement (loopPages es i cps pidx) = map (\<lambda>j. i + int j) (breakPositions es)"
proof (induction es arbitrary: i cps pidx)
  case Nil
  show ?case by (simp add: loop_Nil breakPositions_Nil)
next
  case (Cons e es)
  show ?case
    by (cases "hasPageBreak e")
       (simp_all add: loop_Cons_break loop_Cons_plain breakPositions_Cons Cons.IH comp_def add.assoc)
qed

lemma loopPages_index:
  "map index (loopPages es i cps pidx) = map (\<lambda>j. pidx + int j) [0..<length (breakPositions es)]"
proof (induction es arbitrary: i cps pidx)
  case Nil
  show ?case by (simp add: loop_Nil breakPositions_Nil)
next
  case (Cons e es)
  show ?case
  proof (cases "hasPageBreak e")
    case True
    have "[0..<Suc (length (breakPositions es))] = 0 # map Suc [0..<length (breakPositions es)]"
      by (simp add: upt_conv_Cons map_Suc_upt del: upt_Suc)
    then show ?thesis using True
      by (simp add: loop_Cons_break breakPositions_Cons Cons.IH comp_def add.assoc del: upt_Suc)
  next
    case False
    then show ?thesis by (simp add: loop_Cons_plain breakPositions_Cons Cons.IH)
  qed
qed

lemma loopIndex_eq: "loopIndex es i cps pidx = pidx + int (length (breakPositions es))"
  by (induction es arbitrary: i cps pidx)
     (simp_all add: loop_Nil breakPositions_Nil breakPositions_Cons loop_Cons_break loop_Cons_plain)

lemma loopStart_bounds:
  "cps \<le> i \<Longrightarrow> cps \<le> loopStart es i cps pidx \<and> loopStart es i cps pidx \<le> i + int (length es)"
proof (induction es arbitrary: i cps pidx)
  case Nil
  then show ?case by (simp add: loop_Nil)
next
  case (Cons e es)
  show ?case
  proof (cases "hasPageBreak e")
    case True
    with Cons.IH[of "i + 1" "i + 1" "pidx + 1"] Cons.prems show ?thesis
      by (simp add: loop_Cons_break)
  next
    case False
    with Cons.IH[of cps "i + 1" pidx] Cons.prems show ?thesis
      by (simp add: loop_Cons_plain)
  qed
qed

lemma loopStart_end:
  "cps \<le> i \<Longrightarrow>
   (loopStart es i cps pidx = i + int (length es)) =
   ((es = [] \<and> cps = i) \<or> (es \<noteq> [] \<and> hasPageBreak (last es)))"
proof (induction es arbitrary: i cps pidx)
  case Nil
  then show ?case by (auto simp add: loop_Nil)
next
  case (Cons e es)
  show ?case
  proof (cases "hasPageBreak e")
    case True
    with Cons.IH[of "i + 1" "i + 1" "pidx + 1"] show ?thesis
      by (auto simp add: loop_Cons_break)
  next
    case False
    with Cons.IH[of cps "i + 1" pidx] Cons.prems show ?thesis
      by (auto simp add: loop_Cons_plain)
  qed
qed

lemma loopPages_wf:
  "0 \<le> cps \<Longrightarrow> cps \<le> i \<Longrightarrow>
   \<forall>p \<in> set (loopPages es i cps pidx). 0 \<le> startElement p \<and> startElement p \<le> endElement p"
proof (induction es arbitrary: i cps pidx)
  case Nil
  show ?case by (simp add: loop_Nil)
next
  case (Cons e es)
  show ?case
  proof (cases "hasPageBreak e")
    case True
    with Cons.IH[of "i + 1" "i + 1" "pidx + 1"] Cons.prems show ?thesis
      by (simp add: loop_Cons_break)
  next
    case False
    with Cons.IH[of cps "i + 1" pidx] Cons.prems show ?thesis
      by (simp add: loop_Cons_plain)
  qed
qed

lemma upto_split_at: "(a::int) \<le> b + 1 \<Longrightarrow> b \<le> c \<Longrightarrow> [a..c] = [a..b] @ [b + 1..c]"
  using upto_split2[of "b" a c] upto_split2 
  by (metis add.commute add_diff_cancel_right' upto_rec1 upto_split1 zle_add1_eq_le order_refl append_Nil upto_empty less_add_one linorder_not_le order_le_less)

lemma loopPages_partition:
  "0 \<le> cps \<Longrightarrow> cps \<le> i \<Longrightarrow>
   concat (map pageRange (loopPages es i cps pidx)) @ [loopStart es i cps pidx .. i + int (length es) - 1]
     = [cps .. i + int (length es) - 1]"
proof (induction es arbitrary: i cps pidx)
  case Nil
  show ?case by (simp add: loop_Nil)
next
  case (Cons e es)
  show ?case
  proof (cases "hasPageBreak e")
    case True
    have r: "pageRange \<lparr>index = pidx, startElement = cps, endElement = i\<rparr> = [cps..i]"
      using Cons.prems by (simp add: pageRange_def)
    have "[cps .. i + int (length (e # es)) - 1] = [cps..i] @ [i + 1 .. i + 1 + int (length es) - 1]"
      using Cons.prems upto_split_at[of cps i "i + int (length es)"] by (simp add: add.commute add.left_commute)
    with True Cons.IH[of "i + 1" "i + 1" "pidx + 1"] Cons.prems r show ?thesis
      by (simp add: loop_Cons_break add.commute add.left_commute)
  next
    case False
    with Cons.IH[of cps "i + 1" pidx] Cons.prems show ?thesis
      by (simp add: loop_Cons_plain add.commute add.left_commute)
  qed
qed


lemma getPages_unfold:
  "getPages d =
     (let ps = loopPages (bodyElements d) 0 0 0;
          c = loopStart (bodyElements d) 0 0 0;
          k = int (length (breakPositions (bodyElements d)))
      in if c < int (length (bodyElements d))
         then ps @ [\<lparr>index = k, startElement = c, endElement = int (length (bodyElements d)) - 1\<rparr>]
         else ps @ [\<lparr>index = k, startElement = -1, endElement = -1\<rparr>])"
proof -
  obtain ps c x where g: "getPagesLoop (bodyElements d) 0 [] 0 0 = (ps, c, x)"
    by (cases "getPagesLoop (bodyElements d) 0 [] 0 0") auto
  have ps: "loopPages (bodyElements d) 0 0 0 = ps" by (simp add: loopPages_def g)
  have c: "loopStart (bodyElements d) 0 0 0 = c" by (simp add: loopStart_def g)
  have "loopIndex (bodyElements d) 0 0 0 = x" by (simp add: loopIndex_def g)
  then have x: "x = int (length (breakPositions (bodyElements d)))"
    using loopIndex_eq[of "bodyElements d" 0 0 0] by simp
  have len: "length ps = length (breakPositions (bodyElements d))"
    using loopPages_length[of "bodyElements d" 0 0 0] ps by simp
  show ?thesis
    unfolding getPages_def g ps c Let_def using x len by auto
qed

lemma getPages_length: "length (getPages d) = length (breakPositions (bodyElements d)) + 1"
  by (simp add: getPages_unfold Let_def loopPages_length)

lemma getPages_butlast: "butlast (getPages d) = loopPages (bodyElements d) 0 0 0"
  by (simp add: getPages_unfold Let_def)

lemma getPages_last:
  "last (getPages d) =
     (if loopStart (bodyElements d) 0 0 0 < int (length (bodyElements d))
      then \<lparr>index = int (length (breakPositions (bodyElements d))),
             startElement = loopStart (bodyElements d) 0 0 0,
             endElement = int (length (bodyElements d)) - 1\<rparr>
      else \<lparr>index = int (length (breakPositions (bodyElements d))),
             startElement = -1, endElement = -1\<rparr>)"
  by (simp add: getPages_unfold Let_def)

lemma loopStart_lt:
  "(loopStart body 0 0 0 < int (length body)) = (\<not> (body = [] \<or> hasPageBreak (last body)))"
  using loopStart_end[of 0 0 body 0] loopStart_bounds[of 0 0 body 0] by auto

lemma upto_nat: "[0 .. int n - 1] = map int [0..<n]"
proof (induction n)
  case 0
  show ?case by simp
next
  case (Suc n)
  have "[0 .. int (Suc n) - 1] = [0 .. int n - 1] @ [int n]"
    using upto_rec2[of 0 "int n"] by simp
  with Suc show ?case by simp
qed

lemma getPages_ranges: "concat (map pageRange (getPages d)) = map int [0..<length (bodyElements d)]"
proof -
  let ?b = "bodyElements d"
  let ?c = "loopStart ?b 0 0 0"
  have part: "concat (map pageRange (loopPages ?b 0 0 0)) @ [?c .. int (length ?b) - 1] = [0 .. int (length ?b) - 1]"
    using loopPages_partition[of 0 0 ?b 0] by simp
  have c0: "0 \<le> ?c" and cn: "?c \<le> int (length ?b)"
    using loopStart_bounds[of 0 0 ?b 0] by simp_all
  show ?thesis
  proof (cases "?c < int (length ?b)")
    case True
    then have "pageRange \<lparr>index = int (length (breakPositions ?b)), startElement = ?c,
        endElement = int (length ?b) - 1\<rparr> = [?c .. int (length ?b) - 1]"
      using c0 by (simp add: pageRange_def)
    with True part show ?thesis
      by (simp add: getPages_unfold Let_def upto_nat)
  next
    case False
    then have "[?c .. int (length ?b) - 1] = []" by simp
    with False part show ?thesis
      by (simp add: getPages_unfold Let_def upto_nat pageRange_def)
  qed
qed

lemma hasPageBreak_created: "hasPageBreak createPageBreakParagraph"
  by (simp add: createPageBreakParagraph_def createElement_def hasPageBreak_def
      paragraphHasPageBreak_def)

lemma breakPositions_all:
  "\<forall>e \<in> set es. hasPageBreak e \<Longrightarrow> breakPositions es = [0..<length es]"
  by (simp add: breakPositions_def)

text \<open>
  C1. On a body whose break-bearing elements sit at the positions \<open>p1 < ... < pk\<close>
  (\<open>breakPositions\<close>), \<open>getPages\<close> yields \<open>k + 1\<close> pages, numbered from 0; the first \<open>k\<close>
  end at \<open>p1, ..., pk\<close> and none of them is empty; the ranges of the pages, in order,
  are exactly the positions \<open>0, ..., lastIndex\<close>, so they neither leave a gap nor overlap;
  the last page is the sentinel \<open>(-1, -1)\<close> exactly when the body is empty or its last
  element is a break, and otherwise runs to the last element; and a body of \<open>N\<close> page
  breaks and nothing else has \<open>N + 1\<close> pages.
\<close>

theorem getPages_segmentation:
  "length (getPages d) = length (breakPositions (bodyElements d)) + 1
   \<and> map endElement (butlast (getPages d)) = map int (breakPositions (bodyElements d))
   \<and> map index (getPages d) = map int [0..<length (getPages d)]
   \<and> list_all (\<lambda>p. 0 \<le> startElement p \<and> startElement p \<le> endElement p) (butlast (getPages d))
   \<and> concat (map pageRange (getPages d)) = map int [0..<length (bodyElements d)]
   \<and> (if bodyElements d = [] \<or> hasPageBreak (last (bodyElements d))
      then startElement (last (getPages d)) = -1 \<and> endElement (last (getPages d)) = -1
      else 0 \<le> startElement (last (getPages d))
         \<and> startElement (last (getPages d)) \<le> endElement (last (getPages d))
         \<and> endElement (last (getPages d)) = int (length (bodyElements d)) - 1)
   \<and> getPageCount (d\<lparr>bodyElements := replicate N createPageBreakParagraph\<rparr>) = N + 1"
proof (intro conjI)
  let ?b = "bodyElements d"
  show "length (getPages d) = length (breakPositions ?b) + 1"
    by (rule getPages_length)
  show "map endElement (butlast (getPages d)) = map int (breakPositions ?b)"
    using loopPages_ends[of ?b 0 0 0] by (simp add: getPages_butlast)
  show "map index (getPages d) = map int [0..<length (getPages d)]"
    using loopPages_index[of ?b 0 0 0]
    by (simp add: getPages_unfold Let_def loopPages_length)
  show "list_all (\<lambda>p. 0 \<le> startElement p \<and> startElement p \<le> endElement p) (butlast (getPages d))"
    using loopPages_wf[of 0 0 ?b 0] by (simp add: getPages_butlast list_all_iff)
  show "concat (map pageRange (getPages d)) = map int [0..<length ?b]"
    by (rule getPages_ranges)
  show "if ?b = [] \<or> hasPageBreak (last ?b)
      then startElement (last (getPages d)) = -1 \<and> endElement (last (getPages d)) = -1
      else 0 \<le> startElement (last (getPages d))
         \<and> startElement (last (getPages d)) \<le> endElement (last (getPages d))
         \<and> endElement (last (getPages d)) = int (length ?b) - 1"
    using loopStart_lt[of ?b] loopStart_bounds[of 0 0 ?b 0]
    by (simp add: getPages_last)
  show "getPageCount (d\<lparr>bodyElements := replicate N createPageBreakParagraph\<rparr>) = N + 1"
    using breakPositions_all[of "replicate N createPageBreakParagraph"]
    by (simp add: getPageCount_def getPages_length hasPageBreak_created)
qed

lemma hasPageBreak_para: "hasPageBreak (para s) = False"
  by (simp add: para_def hasPageBreak_def paragraphHasPageBreak_def)

lemma breakPositions_exampleBody: "breakPositions exampleBody = [1, 4]"
  by (simp add: exampleBody_def breakPositions_Cons breakPositions_Nil hasPageBreak_created
      hasPageBreak_para)

theorem getPages_segmentation_witness:
  "length (getPages exampleDoc) = 3
   \<and> map endElement (butlast (getPages exampleDoc)) = [1, 4]
   \<and> concat (map pageRange (getPages exampleDoc)) = [0, 1, 2, 3, 4]
   \<and> startElement (last (getPages exampleDoc)) = -1
   \<and> getPageCount (exampleDoc\<lparr>bodyElements := replicate 2 createPageBreakParagraph\<rparr>) = 3"
proof -
  note t = getPages_segmentation[of exampleDoc 2]
  have b: "bodyElements exampleDoc = exampleBody"
    by (simp add: exampleDoc_def)
  have l: "last exampleBody = createPageBreakParagraph" and n: "length exampleBody = 5"
    by (simp_all add: exampleBody_def)
  have "length (getPages exampleDoc) = length (breakPositions (bodyElements exampleDoc)) + 1"
    using t by blast
  then have 1: "length (getPages exampleDoc) = 3"
    by (simp add: b breakPositions_exampleBody)
  have "map endElement (butlast (getPages exampleDoc)) = map int (breakPositions (bodyElements exampleDoc))"
    using t by blast
  then have 2: "map endElement (butlast (getPages exampleDoc)) = [1, 4]"
    by (simp add: b breakPositions_exampleBody)
  have "concat (map pageRange (getPages exampleDoc)) = map int [0..<length (bodyElements exampleDoc)]"
    using t by blast
  then have 3: "concat (map pageRange (getPages exampleDoc)) = [0, 1, 2, 3, 4]"
    by (simp add: b n upt_rec)
  have "if bodyElements exampleDoc = [] \<or> hasPageBreak (last (bodyElements exampleDoc))
      then startElement (last (getPages exampleDoc)) = -1 \<and> endElement (last (getPages exampleDoc)) = -1
      else 0 \<le> startElement (last (getPages exampleDoc))
         \<and> startElement (last (getPages exampleDoc)) \<le> endElement (last (getPages exampleDoc))
         \<and> endElement (last (getPages exampleDoc)) = int (length (bodyElements exampleDoc)) - 1"
    using t by blast
  then have 4: "startElement (last (getPages exampleDoc)) = -1"
    by (simp add: b l hasPageBreak_created)
  have 5: "getPageCount (exampleDoc\<lparr>bodyElements := replicate 2 createPageBreakParagraph\<rparr>) = 3"
    using t by simp
  from 1 2 3 4 5 show ?thesis by blast
qed

section \<open>Removing a page\<close>

lemma breakPositions_length: "length (breakPositions es) = length (filter hasPageBreak es)"
  by (induction es) (simp_all add: breakPositions_Nil breakPositions_Cons)

lemma getPageCount_eq: "getPageCount d = length (filter hasPageBreak (bodyElements d)) + 1"
  by (simp add: getPageCount_def getPages_length breakPositions_length)

lemma getPages_nth_loop:
  "j < length (breakPositions (bodyElements d)) \<Longrightarrow>
   getPages d ! j = loopPages (bodyElements d) 0 0 0 ! j"
  by (simp add: getPages_unfold Let_def nth_append loopPages_length)

lemma getPages_nth_last:
  "getPages d ! length (breakPositions (bodyElements d)) = last (getPages d)"
proof -
  have "getPages d \<noteq> []" using getPages_length[of d] by auto
  then show ?thesis using getPages_length[of d] by (simp add: last_conv_nth)
qed

text \<open>What the scan knows of each page it closes, on the body \<open>pre @ es\<close> of which it has
  visited \<open>pre\<close>: the page ends on a break and holds no other.\<close>

lemma loopPages_segments:
  "0 \<le> cps \<Longrightarrow> cps \<le> i \<Longrightarrow> i = int (length pre) \<Longrightarrow>
   \<forall>e \<in> set (drop (nat cps) pre). \<not> hasPageBreak e \<Longrightarrow>
   p \<in> set (loopPages es i cps pidx) \<Longrightarrow>
   0 \<le> startElement p \<and> startElement p \<le> endElement p
   \<and> endElement p < int (length (pre @ es))
   \<and> hasPageBreak ((pre @ es) ! nat (endElement p))
   \<and> (\<forall>e \<in> set (take (nat (endElement p) - nat (startElement p)) (drop (nat (startElement p)) (pre @ es))).
        \<not> hasPageBreak e)"
proof (induction es arbitrary: pre i cps pidx)
  case Nil
  then show ?case by (simp add: loop_Nil)
next
  case (Cons e es)
  have app: "pre @ e # es = (pre @ [e]) @ es" by simp
  show ?case
  proof (cases "hasPageBreak e")
    case True
    from Cons.prems(5) True
    consider (new) "p = \<lparr>index = pidx, startElement = cps, endElement = i\<rparr>"
      | (rest) "p \<in> set (loopPages es (i + 1) (i + 1) (pidx + 1))"
      by (auto simp add: loop_Cons_break)
    then show ?thesis
    proof cases
      case new
      have "take (nat i - nat cps) (drop (nat cps) (pre @ e # es)) = drop (nat cps) pre"
        using Cons.prems(1,2,3) by simp
      with new True Cons.prems(1-4) show ?thesis
        by (simp add: nth_append)
    next
      case rest
      have "0 \<le> startElement p \<and> startElement p \<le> endElement p
        \<and> endElement p < int (length ((pre @ [e]) @ es))
        \<and> hasPageBreak (((pre @ [e]) @ es) ! nat (endElement p))
        \<and> (\<forall>e' \<in> set (take (nat (endElement p) - nat (startElement p)) (drop (nat (startElement p)) ((pre @ [e]) @ es))).
            \<not> hasPageBreak e')"
        proof (rule Cons.IH[of "i + 1" "i + 1" "pre @ [e]" "pidx + 1"])
        show "0 \<le> i + 1" using Cons.prems(1,2) by simp
        show "i + 1 \<le> i + 1" by simp
        show "i + 1 = int (length (pre @ [e]))" using Cons.prems(3) by simp
        show "\<forall>e' \<in> set (drop (nat (i + 1)) (pre @ [e])). \<not> hasPageBreak e'"
          using Cons.prems(3) by simp
        show "p \<in> set (loopPages es (i + 1) (i + 1) (pidx + 1))" by (rule rest)
      qed
      then show ?thesis unfolding app .
    qed
  next
    case False
    have rest: "p \<in> set (loopPages es (i + 1) cps pidx)"
      using Cons.prems(5) False by (simp add: loop_Cons_plain)
    have "0 \<le> startElement p \<and> startElement p \<le> endElement p
        \<and> endElement p < int (length ((pre @ [e]) @ es))
        \<and> hasPageBreak (((pre @ [e]) @ es) ! nat (endElement p))
        \<and> (\<forall>e' \<in> set (take (nat (endElement p) - nat (startElement p)) (drop (nat (startElement p)) ((pre @ [e]) @ es))).
            \<not> hasPageBreak e')"
    proof (rule Cons.IH[of cps "i + 1" "pre @ [e]" pidx])
      show "0 \<le> cps" by (rule Cons.prems(1))
      show "cps \<le> i + 1" using Cons.prems(2) by simp
      show "i + 1 = int (length (pre @ [e]))" using Cons.prems(3) by simp
      show "\<forall>e' \<in> set (drop (nat cps) (pre @ [e])). \<not> hasPageBreak e'"
        using Cons.prems(4) False by (auto dest: in_set_dropD)
      show "p \<in> set (loopPages es (i + 1) cps pidx)" by (rule rest)
    qed
    then show ?thesis unfolding app .
  qed
qed

lemma splice_range:
  "0 \<le> s \<Longrightarrow> s \<le> e \<Longrightarrow> e < int (length xs) \<Longrightarrow>
   splice xs s (e - s + 1) = take (nat s) xs @ drop (Suc (nat e)) xs"
proof -
  assume a: "0 \<le> s" "s \<le> e" "e < int (length xs)"
  have "nat (s + (e - s + 1)) = Suc (nat e)" using a by simp
  moreover have "min (max (e - s + 1) 0) (int (length xs) - s) = e - s + 1" using a by simp
  ultimately show ?thesis using a by (simp add: splice_def relIndex_def Let_def)
qed

lemma filter_segment:
  assumes "s \<le> e" "e < length xs" "P (xs ! e)"
    and "\<forall>x \<in> set (take (e - s) (drop s xs)). \<not> P x"
  shows "length (filter P xs) = Suc (length (filter P (take s xs @ drop (Suc e) xs)))"
proof -
  have "xs = take s xs @ take (e - s) (drop s xs) @ [xs ! e] @ drop (Suc e) xs"
  proof -
    have "drop s xs = take (e - s) (drop s xs) @ drop (e - s) (drop s xs)"
      by (simp only: append_take_drop_id)
    also have "drop (e - s) (drop s xs) = drop e xs" using assms(1) by simp
    also have "drop e xs = xs ! e # drop (Suc e) xs"
      using assms(2) by (simp add: Cons_nth_drop_Suc)
    finally have "drop s xs = take (e - s) (drop s xs) @ [xs ! e] @ drop (Suc e) xs" by simp
    then show ?thesis by (metis append_take_drop_id)
  qed
  then have "filter P xs = filter P (take s xs @ take (e - s) (drop s xs) @ [xs ! e] @ drop (Suc e) xs)"
    by simp
  also have "\<dots> = filter P (take s xs) @ [xs ! e] @ filter P (drop (Suc e) xs)"
    using assms(3,4) by simp
  finally show ?thesis by simp
qed


lemma loopStart_no_pages:
  "loopPages es i cps pidx = [] \<Longrightarrow> loopStart es i cps pidx = cps"
proof (induction es arbitrary: i)
  case Nil
  show ?case by (simp add: loop_Nil)
next
  case (Cons e es)
  show ?case
  proof (cases "hasPageBreak e")
    case True
    with Cons.prems show ?thesis by (simp add: loop_Cons_break)
  next
    case False
    with Cons show ?thesis by (simp add: loop_Cons_plain)
  qed
qed

lemma loopStart_after_last:
  "loopPages es i cps pidx \<noteq> [] \<Longrightarrow>
   loopStart es i cps pidx = endElement (last (loopPages es i cps pidx)) + 1"
proof (induction es arbitrary: i cps pidx)
  case Nil
  then show ?case by (simp add: loop_Nil)
next
  case (Cons e es)
  show ?case
  proof (cases "hasPageBreak e")
    case True
    show ?thesis
    proof (cases "loopPages es (i + 1) (i + 1) (pidx + 1) = []")
      case True
      with \<open>hasPageBreak e\<close> loopStart_no_pages[OF True] show ?thesis
        by (simp add: loop_Cons_break)
    next
      case False
      with \<open>hasPageBreak e\<close> Cons.IH[OF False] show ?thesis
        by (simp add: loop_Cons_break)
    qed
  next
    case False
    with Cons show ?thesis by (simp add: loop_Cons_plain)
  qed
qed


text \<open>Removing a page that a break closes.\<close>

lemma removePage_closed:
  assumes "0 \<le> idx" "idx < int (length (breakPositions (bodyElements d)))"
  defines "p \<equiv> loopPages (bodyElements d) 0 0 0 ! nat idx"
  shows "removePage d idx =
           (Returned, d\<lparr>dirty := True,
              bodyElements := take (nat (startElement p)) (bodyElements d)
                 @ drop (Suc (nat (endElement p))) (bodyElements d)\<rparr>)"
    and "Suc (length (filter hasPageBreak (take (nat (startElement p)) (bodyElements d)
                 @ drop (Suc (nat (endElement p))) (bodyElements d))))
         = length (filter hasPageBreak (bodyElements d))"
proof -
  let ?b = "bodyElements d"
  have j: "nat idx < length (breakPositions ?b)" using assms(1,2) by simp
  have pg: "getPages d ! nat idx = p" unfolding p_def by (rule getPages_nth_loop[OF j])
  have mem: "p \<in> set (loopPages ?b 0 0 0)"
    unfolding p_def using j by (simp add: loopPages_length)
  have seg: "0 \<le> startElement p \<and> startElement p \<le> endElement p
    \<and> endElement p < int (length ([] @ ?b))
    \<and> hasPageBreak (([] @ ?b) ! nat (endElement p))
    \<and> (\<forall>e \<in> set (take (nat (endElement p) - nat (startElement p)) (drop (nat (startElement p)) ([] @ ?b))).
        \<not> hasPageBreak e)"
    by (rule loopPages_segments[of 0 0 "[]" p ?b 0]) (simp_all add: mem)
  have ne: "startElement p \<noteq> -1" using seg by simp
  have valid: "\<not> (idx < 0 \<or> idx \<ge> int (length (getPages d)))"
    using assms(1,2) by (simp add: getPages_length)
  have sp: "splice ?b (startElement p) (endElement p - startElement p + 1)
    = take (nat (startElement p)) ?b @ drop (Suc (nat (endElement p))) ?b"
    using seg by (intro splice_range) simp_all
  show "removePage d idx =
           (Returned, d\<lparr>dirty := True,
              bodyElements := take (nat (startElement p)) ?b @ drop (Suc (nat (endElement p))) ?b\<rparr>)"
    using valid ne sp by (simp add: removePage_def Let_def pg)
  show "Suc (length (filter hasPageBreak (take (nat (startElement p)) ?b
                 @ drop (Suc (nat (endElement p))) ?b)))
         = length (filter hasPageBreak ?b)"
  proof -
    have "startElement p \<le> endElement p" using seg by blast
    then have a: "nat (startElement p) \<le> nat (endElement p)" by (rule nat_mono)
    have "0 \<le> endElement p" "endElement p < int (length ?b)" using seg by auto
    then have b: "nat (endElement p) < length ?b" by linarith
    have c: "hasPageBreak (?b ! nat (endElement p))" using seg by simp
    have e: "\<forall>x \<in> set (take (nat (endElement p) - nat (startElement p))
        (drop (nat (startElement p)) ?b)). \<not> hasPageBreak x" using seg by simp
    show ?thesis using filter_segment[OF a b, of hasPageBreak, OF c e] by simp
  qed
qed

text \<open>Removing the trailing sentinel page of a body that ends on a break.\<close>

lemma removePage_sentinel:
  assumes "bodyElements d \<noteq> []" "hasPageBreak (last (bodyElements d))"
  shows "removePage d (int (length (breakPositions (bodyElements d)))) =
           (Returned, d\<lparr>dirty := True, bodyElements := butlast (bodyElements d)\<rparr>)"
    and "0 < length (breakPositions (bodyElements d))"
    and "endElement (getPages d ! (length (breakPositions (bodyElements d)) - 1))
           = int (length (bodyElements d)) - 1"
proof -
  let ?b = "bodyElements d"
  let ?k = "length (breakPositions ?b)"
  have "filter hasPageBreak ?b \<noteq> []"
    using assms by (simp add: filter_empty_conv) (metis last_in_set)
  then show k: "0 < ?k" by (simp add: breakPositions_length)
  have st: "loopStart ?b 0 0 0 = int (length ?b)"
    using loopStart_lt[of ?b] loopStart_bounds[of 0 0 ?b 0] assms by simp
  have pne: "loopPages ?b 0 0 0 \<noteq> []"
    using k loopPages_length[of ?b 0 0 0] by auto
  have prev: "getPages d ! (?k - 1) = last (loopPages ?b 0 0 0)"
    using k pne getPages_nth_loop[of "?k - 1" d]
    by (simp add: last_conv_nth loopPages_length)
  show e: "endElement (getPages d ! (?k - 1)) = int (length ?b) - 1"
    using loopStart_after_last[OF pne] st prev by simp
  have lastp: "getPages d ! ?k = \<lparr>index = int ?k, startElement = -1, endElement = -1\<rparr>"
    using st by (simp add: getPages_nth_last getPages_last)
  have valid: "\<not> (int ?k < 0 \<or> int ?k \<ge> int (length (getPages d)))"
    by (simp add: getPages_length)
  have n1: "nat (int ?k - 1) = ?k - 1" by simp
  have sp: "splice ?b (int (length ?b) - 1) 1 = butlast ?b"
  proof -
    have "nat (int (length ?b) - 1) = length ?b - 1" by simp
    then show ?thesis
      using assms(1) by (simp add: splice_def relIndex_def Let_def butlast_conv_take)
  qed
  show "removePage d (int ?k) = (Returned, d\<lparr>dirty := True, bodyElements := butlast ?b\<rparr>)"
    using valid k e sp assms(1)
    by (simp add: removePage_def Let_def lastp n1 del: of_nat_less_iff)
qed

text \<open>Removing the only page of a body without breaks.\<close>

lemma removePage_only:
  assumes "breakPositions (bodyElements d) = []"
  shows "removePage d 0 = (Returned, d\<lparr>dirty := True, bodyElements := []\<rparr>)"
proof -
  let ?b = "bodyElements d"
  have pe: "loopPages ?b 0 0 0 = []"
    using assms loopPages_length[of ?b 0 0 0] by simp
  have st: "loopStart ?b 0 0 0 = 0" by (rule loopStart_no_pages[OF pe])
  have gp: "getPages d =
     (if 0 < int (length ?b) then [\<lparr>index = 0, startElement = 0, endElement = int (length ?b) - 1\<rparr>]
      else [\<lparr>index = 0, startElement = -1, endElement = -1\<rparr>])"
    by (simp add: getPages_unfold Let_def pe st assms)
  have sp: "splice ?b 0 (int (length ?b)) = []"
    by (simp add: splice_def relIndex_def Let_def)
  show ?thesis
  proof (cases "?b = []")
    case True
    then show ?thesis by (simp add: removePage_def gp Let_def)
  next
    case False
    then show ?thesis using sp by (simp add: removePage_def gp Let_def)
  qed
qed


lemma sentinel_last_only:
  assumes "j < length (getPages d)" "startElement (getPages d ! j) = -1"
  shows "j = length (breakPositions (bodyElements d))"
    and "bodyElements d = [] \<or> hasPageBreak (last (bodyElements d))"
proof -
  let ?b = "bodyElements d"
  let ?k = "length (breakPositions ?b)"
  show j: "j = ?k"
  proof (rule ccontr)
    assume "j \<noteq> ?k"
    then have lt: "j < ?k" using assms(1) by (simp add: getPages_length)
    then have "loopPages ?b 0 0 0 ! j \<in> set (loopPages ?b 0 0 0)"
      by (simp add: loopPages_length)
    then have "0 \<le> startElement (loopPages ?b 0 0 0 ! j)"
      using loopPages_wf[of 0 0 ?b 0] by simp
    then show False using assms(2) getPages_nth_loop[OF lt] by simp
  qed
  have "startElement (last (getPages d)) = -1"
    using assms(2) j by (simp add: getPages_nth_last)
  then have "\<not> loopStart ?b 0 0 0 < int (length ?b)"
    using loopStart_bounds[of 0 0 ?b 0] by (auto simp add: getPages_last split: if_splits)
  then show "?b = [] \<or> hasPageBreak (last ?b)"
    by (simp add: loopStart_lt)
qed

lemma filter_butlast_break:
  "xs \<noteq> [] \<Longrightarrow> P (last xs) \<Longrightarrow> Suc (length (filter P (butlast xs))) = length (filter P xs)"
proof -
  assume a: "xs \<noteq> []" "P (last xs)"
  have "filter P xs = filter P (butlast xs @ [last xs])" using a(1) by simp
  also have "\<dots> = filter P (butlast xs) @ [last xs]" using a(2) by simp
  finally show ?thesis by simp
qed


lemma getPageCount_exampleDoc: "getPageCount exampleDoc = 3"
  by (simp add: getPageCount_eq exampleDoc_def exampleBody_def hasPageBreak_created
      hasPageBreak_para)


text \<open>
  C10. When the last page is the sentinel \<open>(-1, -1)\<close> and its index is greater than 0,
  removing that page removes exactly one body element: the last one, which is a
  break-bearing paragraph and the last element of the preceding page. Every other body
  element stays, in order, and the page count goes down by exactly 1.
\<close>

theorem removePage_trailing_sentinel:
  assumes "1 < getPageCount d"
    and "startElement (last (getPages d)) = -1" and "endElement (last (getPages d)) = -1"
  shows "removePage d (int (getPageCount d) - 1) =
           (Returned, d\<lparr>dirty := True, bodyElements := butlast (bodyElements d)\<rparr>)
         \<and> bodyElements d \<noteq> [] \<and> hasPageBreak (last (bodyElements d))
         \<and> endElement (getPages d ! (getPageCount d - 2)) = int (length (bodyElements d)) - 1
         \<and> getPageCount (snd (removePage d (int (getPageCount d) - 1))) + 1 = getPageCount d"
proof -
  let ?b = "bodyElements d"
  let ?k = "length (breakPositions ?b)"
  have cnt: "getPageCount d = ?k + 1" by (simp add: getPageCount_def getPages_length)
  have "startElement (getPages d ! ?k) = -1"
    using assms(2) by (simp add: getPages_nth_last)
  then have "?b = [] \<or> hasPageBreak (last ?b)"
    by (intro sentinel_last_only(2)[of ?k d]) (simp_all add: getPages_length)
  moreover have "?b \<noteq> []"
    using assms(1) cnt by (auto simp add: breakPositions_Nil)
  ultimately have ne: "?b \<noteq> []" and br: "hasPageBreak (last ?b)" by auto
  have idx: "int (getPageCount d) - 1 = int ?k" using cnt by simp
  have r: "removePage d (int (getPageCount d) - 1) =
      (Returned, d\<lparr>dirty := True, bodyElements := butlast ?b\<rparr>)"
    unfolding idx by (rule removePage_sentinel(1)[OF ne br])
  have e: "endElement (getPages d ! (getPageCount d - 2)) = int (length ?b) - 1"
    using removePage_sentinel(3)[OF ne br] cnt by simp
  have c: "getPageCount (snd (removePage d (int (getPageCount d) - 1))) + 1 = getPageCount d"
    unfolding r using filter_butlast_break[of "bodyElements d" hasPageBreak, OF ne br]
    by (simp add: getPageCount_eq)
  from r ne br e c show ?thesis by blast
qed

lemma getPages_exampleDoc:
  "getPages exampleDoc =
     [\<lparr>index = 0, startElement = 0, endElement = 1\<rparr>,
      \<lparr>index = 1, startElement = 2, endElement = 4\<rparr>,
      \<lparr>index = 2, startElement = -1, endElement = -1\<rparr>]"
  by (simp add: getPages_def exampleDoc_def exampleBody_def hasPageBreak_created
      hasPageBreak_para)

theorem removePage_trailing_sentinel_witness:
  "removePage exampleDoc 2 =
     (Returned, exampleDoc\<lparr>dirty := True,
        bodyElements := [para ''a'', createPageBreakParagraph, para ''b'', para ''c'']\<rparr>)
   \<and> getPageCount (snd (removePage exampleDoc 2)) = 2"
proof -
  have h1: "1 < getPageCount exampleDoc"
    by (simp add: getPageCount_exampleDoc)
  have h2: "startElement (last (getPages exampleDoc)) = -1"
    and h3: "endElement (last (getPages exampleDoc)) = -1"
    by (simp_all add: getPages_exampleDoc)
  note t = removePage_trailing_sentinel[OF h1 h2 h3]
  have b: "butlast (bodyElements exampleDoc) =
      [para ''a'', createPageBreakParagraph, para ''b'', para ''c'']"
    by (simp add: exampleDoc_def exampleBody_def)
  have "removePage exampleDoc (int (getPageCount exampleDoc) - 1) =
      (Returned, exampleDoc\<lparr>dirty := True, bodyElements := butlast (bodyElements exampleDoc)\<rparr>)"
    using t by blast
  then have r: "removePage exampleDoc 2 =
     (Returned, exampleDoc\<lparr>dirty := True,
        bodyElements := [para ''a'', createPageBreakParagraph, para ''b'', para ''c'']\<rparr>)"
    by (simp add: getPageCount_exampleDoc b)
  have "getPageCount (snd (removePage exampleDoc (int (getPageCount exampleDoc) - 1))) + 1
      = getPageCount exampleDoc"
    using t by blast
  then have c: "getPageCount (snd (removePage exampleDoc 2)) = 2"
    by (simp add: getPageCount_exampleDoc)
  from r c show ?thesis by blast
qed

lemma removePage_returns:
  "0 \<le> idx \<Longrightarrow> idx < int (getPageCount d) \<Longrightarrow> fst (removePage d idx) = Returned"
  by (simp add: removePage_def Let_def getPageCount_def)

text \<open>
  C3, as amended. For every valid index \<open>removePage\<close> returns. It lowers the page count by
  exactly 1 when the page removed is not the last page, or is the trailing sentinel page
  at an index greater than 0; and removing the only page of a document leaves the page
  count at 1, since every document has at least one page. As stated (a decrease for
  every valid index) the claim fails on the empty document, whose only page is index 0.
\<close>

theorem removePage_page_count:
  assumes "0 \<le> idx" and "idx < int (getPageCount d)"
  shows "fst (removePage d idx) = Returned
       \<and> (idx + 1 < int (getPageCount d) \<or> (0 < idx \<and> startElement (getPages d ! nat idx) = -1)
          \<longrightarrow> getPageCount (snd (removePage d idx)) + 1 = getPageCount d)
       \<and> (getPageCount d = 1 \<longrightarrow> getPageCount (snd (removePage d idx)) = 1)"
proof (intro conjI impI)
  let ?b = "bodyElements d"
  let ?k = "length (breakPositions ?b)"
  have cnt: "getPageCount d = ?k + 1" by (simp add: getPageCount_def getPages_length)
  show "fst (removePage d idx) = Returned" by (rule removePage_returns[OF assms])
  show "getPageCount (snd (removePage d idx)) + 1 = getPageCount d"
    if h: "idx + 1 < int (getPageCount d) \<or> (0 < idx \<and> startElement (getPages d ! nat idx) = -1)"
  proof (cases "idx < int ?k")
    case True
    show ?thesis
      using removePage_closed[OF assms(1) True]
      by (simp add: getPageCount_eq)
  next
    case False
    then have i: "idx = int ?k" using assms(2) cnt by simp
    with h cnt have s: "0 < idx" "startElement (getPages d ! nat idx) = -1" by auto
    have "?b = [] \<or> hasPageBreak (last ?b)"
      using s(2) assms by (intro sentinel_last_only(2)[of "nat idx" d]) (simp_all add: getPageCount_def)
    moreover have "?b \<noteq> []" using s(1) i by (auto simp add: breakPositions_Nil)
    ultimately have ne: "?b \<noteq> []" and br: "hasPageBreak (last ?b)" by auto
    show ?thesis
      using removePage_sentinel(1)[OF ne br] filter_butlast_break[of "bodyElements d" hasPageBreak, OF ne br]
      by (simp add: i getPageCount_eq)
  qed
  show "getPageCount (snd (removePage d idx)) = 1" if one: "getPageCount d = 1"
  proof -
    have e: "breakPositions ?b = []" using cnt one by simp
    have i: "idx = 0" using assms one by simp
    show ?thesis by (simp add: i removePage_only[OF e] getPageCount_eq)
  qed
qed

theorem removePage_page_count_counterexample:
  "getPageCount create = 1 \<and> removePage create 0 = (Returned, create)
   \<and> getPageCount (snd (removePage create 0)) = 1"
  by (simp add: getPageCount_eq removePage_def getPages_def create_def newDocument_def)

theorem removePage_page_count_witness:
  "fst (removePage exampleDoc 1) = Returned
   \<and> getPageCount (snd (removePage exampleDoc 0)) = 2
   \<and> getPageCount (snd (removePage exampleDoc 1)) = 2
   \<and> getPageCount (snd (removePage exampleDoc 2)) = 2
   \<and> getPageCount (snd (removePage create 0)) = 1"
  using removePage_page_count[of 0 exampleDoc] removePage_page_count[of 1 exampleDoc]
    removePage_page_count[of 2 exampleDoc] removePage_page_count[of 0 create]
  by (simp add: getPageCount_exampleDoc getPages_exampleDoc)
     (simp add: getPageCount_eq create_def newDocument_def)

section \<open>Merging\<close>

lemma mergePagesLoop_eq:
  "mergePagesLoop d sb ps = d\<lparr>bodyElements := bodyElements d @ concat (map (pageElements sb) ps)\<rparr>"
  by (induction ps arbitrary: d) (simp_all add: pageElements_def cloneNodes_def Let_def)

lemma mergeNamespacesLoop_map:
  "map_of (mergeNamespacesLoop ns src) = map_of src ++ map_of ns"
proof (induction src arbitrary: ns)
  case Nil
  show ?case by simp
next
  case (Cons kv src)
  obtain k v where kv: "kv = (k, v)" by (cases kv)
  show ?case
  proof (cases "k \<in> set (map fst ns)")
    case True
    then obtain w where w: "map_of ns k = Some w"
      by (metis map_of_eq_None_iff not_Some_eq set_map)
    have "map_of (mergeNamespacesLoop ns (kv # src)) = map_of (mergeNamespacesLoop ns src)"
      using True by (simp add: kv)
    also have "\<dots> = map_of src ++ map_of ns" by (rule Cons.IH)
    also have "\<dots> = map_of (kv # src) ++ map_of ns"
      using w by (auto simp add: kv map_add_def fun_eq_iff split: option.splits)
    finally show ?thesis .
  next
    case False
    then have n: "map_of ns k = None" by (simp add: map_of_eq_None_iff)
    have "map_of (mergeNamespacesLoop ns (kv # src))
        = map_of (mergeNamespacesLoop (AList.update k v ns) src)"
      using False by (simp add: kv)
    also have "\<dots> = map_of src ++ map_of (AList.update k v ns)" by (rule Cons.IH)
    also have "\<dots> = map_of (kv # src) ++ map_of ns"
      using n by (auto simp add: kv AList.update_conv' map_add_def fun_eq_iff split: option.splits)
    finally show ?thesis .
  qed
qed

lemma mergeNamespacesLoop_distinct:
  "distinct (map fst ns) \<Longrightarrow> distinct (map fst (mergeNamespacesLoop ns src))"
  by (induction src arbitrary: ns) (auto simp add: AList.distinct_update)

lemma copyDocumentStructure_fields:
  "namespaces (copyDocumentStructure d s) = namespaces d"
  "bodyElements (copyDocumentStructure d s) = bodyElements d"
  "dirty (copyDocumentStructure d s) = dirty d"
  by (simp_all add: copyDocumentStructure_def Let_def split: option.splits)

lemma mergePrepared_fields:
  "namespaces (mergePrepared d s) = mergeNamespacesLoop (namespaces d) (namespaces s)"
  "bodyElements (mergePrepared d s) = bodyElements d"
  "dirty (mergePrepared d s) = True"
  by (simp_all add: mergePrepared_def mergeNamespaces_def Let_def copyDocumentStructure_fields)

lemma merge_unfold:
  "merge d s options =
     (if selectedPages s options = [] then mergePrepared d s
      else (mergePrepared d s)\<lparr>bodyElements :=
              bodyElements d
              @ (if addPageBreakBefore options \<noteq> Some False \<and> bodyElements d \<noteq> []
                 then [createPageBreakParagraph] else [])
              @ concat (map (pageElements (bodyElements s)) (selectedPages s options))\<rparr>)"
proof -
  have b: "bodyElements (mergePrepared d s) = bodyElements d" by (rule mergePrepared_fields)
  show ?thesis
    unfolding merge_def Let_def mergePrepared_def[symmetric, unfolded Let_def]
      selectedPages_def[symmetric] mergePagesLoop_eq
    by (simp add: b)
qed

lemma merge_namespaces:
  "namespaces (merge d s options) = mergeNamespacesLoop (namespaces d) (namespaces s)"
  by (simp add: merge_unfold mergePrepared_fields)

lemma merge_dirty: "dirty (merge d s options) = True"
  by (simp add: merge_unfold mergePrepared_fields)

lemma slice_range:
  assumes "0 \<le> s" "s \<le> e" "e < int (length xs)"
  shows "slice xs s (e + 1) = map (\<lambda>i. xs ! nat i) [s..e]"
proof (rule nth_equalityI)
  have sl: "slice xs s (e + 1) = take (nat (e + 1 - s)) (drop (nat s) xs)"
    using assms by (simp add: slice_def relIndex_def Let_def)
  show len: "length (slice xs s (e + 1)) = length (map (\<lambda>i. xs ! nat i) [s..e])"
    using assms by (simp add: sl)
  fix j assume "j < length (slice xs s (e + 1))"
  then have j: "j < nat (e - s + 1)" using len by simp
  then have le: "s + int j \<le> e" by linarith
  have "slice xs s (e + 1) ! j = xs ! (nat s + j)"
    using j assms by (simp add: sl)
  moreover have "map (\<lambda>i. xs ! nat i) [s..e] ! j = xs ! nat (s + int j)"
    using j le by (simp add: nth_upto)
  moreover have "nat (s + int j) = nat s + j" using assms(1) by (simp add: nat_add_distrib)
  ultimately show "slice xs s (e + 1) ! j = map (\<lambda>i. xs ! nat i) [s..e] ! j" by simp
qed

lemma getPages_page_ok:
  assumes "p \<in> set (getPages d)"
  shows "startElement p = -1
     \<or> (0 \<le> startElement p \<and> startElement p \<le> endElement p
        \<and> endElement p < int (length (bodyElements d)))"
proof -
  let ?b = "bodyElements d"
  from assms have "p \<in> set (loopPages ?b 0 0 0) \<or> p = last (getPages d)"
    by (auto simp add: getPages_unfold Let_def split: if_splits)
  then show ?thesis
  proof
    assume mem: "p \<in> set (loopPages ?b 0 0 0)"
    have "0 \<le> startElement p \<and> startElement p \<le> endElement p
      \<and> endElement p < int (length ([] @ ?b))
      \<and> hasPageBreak (([] @ ?b) ! nat (endElement p))
      \<and> (\<forall>e \<in> set (take (nat (endElement p) - nat (startElement p)) (drop (nat (startElement p)) ([] @ ?b))).
          \<not> hasPageBreak e)"
      by (rule loopPages_segments[of 0 0 "[]" p ?b 0]) (simp_all add: mem)
    then show ?thesis by simp
  next
    assume "p = last (getPages d)"
    then show ?thesis
      using loopStart_bounds[of 0 0 ?b 0] by (simp add: getPages_last)
  qed
qed

lemma pageElements_range:
  assumes "p \<in> set (getPages d)"
  shows "pageElements (bodyElements d) p = map (\<lambda>i. bodyElements d ! nat i) (pageRange p)"
proof (cases "startElement p = -1")
  case True
  then show ?thesis by (simp add: pageElements_def pageRange_def)
next
  case False
  with getPages_page_ok[OF assms] show ?thesis
    by (simp add: pageElements_def pageRange_def slice_range)
qed

lemma all_pages_elements:
  "concat (map (pageElements (bodyElements d)) (getPages d)) = bodyElements d"
proof -
  let ?b = "bodyElements d"
  have "map (pageElements ?b) (getPages d) = map (map (\<lambda>i. ?b ! nat i) \<circ> pageRange) (getPages d)"
    by (rule map_cong) (simp_all add: pageElements_range)
  then have "concat (map (pageElements ?b) (getPages d))
      = concat (map (map (\<lambda>i. ?b ! nat i) \<circ> pageRange) (getPages d))"
    by (rule arg_cong)
  also have "\<dots> = map (\<lambda>i. ?b ! nat i) (concat (map pageRange (getPages d)))"
    by (simp add: map_concat)
  also have "\<dots> = map (\<lambda>j. ?b ! j) [0..<length ?b]"
    by (simp add: getPages_ranges comp_def)
  also have "\<dots> = ?b" by (rule map_nth)
  finally show ?thesis .
qed

lemma getPages_nonempty: "getPages d \<noteq> []"
  using getPages_length[of d] by auto

text \<open>Merging every page with the default options into a target that has content.\<close>

lemma merge_all_body:
  assumes "pages options = None" "addPageBreakBefore options \<noteq> Some False" "bodyElements d \<noteq> []"
  shows "bodyElements (merge d s options) = bodyElements d @ [createPageBreakParagraph] @ bodyElements s"
  using assms getPages_nonempty[of s]
  by (simp add: merge_unfold selectedPages_def all_pages_elements)

lemma merge_all_count:
  assumes "pages options = None" "addPageBreakBefore options \<noteq> Some False" "bodyElements d \<noteq> []"
  shows "getPageCount (merge d s options) = getPageCount d + getPageCount s"
  by (simp add: getPageCount_eq merge_all_body[OF assms] hasPageBreak_created)

lemma selectedPages_none:
  assumes "pages options = Some requested"
    and "\<forall>i \<in> set requested. i < 0 \<or> int (getPageCount s) \<le> i"
  shows "selectedPages s options = []"
  using assms by (auto simp add: selectedPages_def getPageCount_def filter_empty_conv)

lemma getPageCount_exampleTarget: "getPageCount exampleTarget = 1"
  by (simp add: getPageCount_eq exampleTarget_def hasPageBreak_para)

lemma getPageCount_exampleSource: "getPageCount exampleSource = 3"
  by (simp add: getPageCount_eq exampleSource_def hasPageBreak_para hasPageBreak_created)

text \<open>
  C4, as amended. Merging a source of 3 pages, with the default options (every page, a
  page break before the merged content), into a target that holds one page of body
  content yields a target of exactly 4 pages: the target's own page, closed by the
  inserted break, and the three pages of the source. The 5 pages of the claim count one
  break too many.
\<close>

theorem merge_three_pages_into_one:
  assumes "bodyElements d \<noteq> []" and "getPageCount d = 1" and "getPageCount sourceDoc = 3"
    and "pages options = None" and "addPageBreakBefore options \<noteq> Some False"
  shows "getPageCount (merge d sourceDoc options) = 4"
  using merge_all_count[OF assms(4,5,1), of sourceDoc] assms(2,3) by simp

theorem merge_three_pages_into_one_counterexample:
  "bodyElements exampleTarget = [para ''t'']
   \<and> getPageCount exampleTarget = 1 \<and> getPageCount exampleSource = 3
   \<and> getPageCount (merge exampleTarget exampleSource defaultOptions) = 4
   \<and> getPageCount (merge exampleTarget exampleSource defaultOptions) \<noteq> 5"
proof -
  have b: "bodyElements exampleTarget = [para ''t'']" by (simp add: exampleTarget_def)
  have "getPageCount (merge exampleTarget exampleSource defaultOptions)
      = getPageCount exampleTarget + getPageCount exampleSource"
    by (rule merge_all_count) (simp_all add: defaultOptions_def b)
  then show ?thesis
    by (simp add: b getPageCount_exampleTarget getPageCount_exampleSource)
qed

theorem merge_three_pages_into_one_witness:
  "getPageCount (merge exampleTarget exampleSource defaultOptions) = 4"
proof (rule merge_three_pages_into_one)
  show "bodyElements exampleTarget \<noteq> []" by (simp add: exampleTarget_def)
  show "getPageCount exampleTarget = 1" by (rule getPageCount_exampleTarget)
  show "getPageCount exampleSource = 3" by (rule getPageCount_exampleSource)
  show "pages defaultOptions = None" by (simp add: defaultOptions_def)
  show "addPageBreakBefore defaultOptions \<noteq> Some False" by (simp add: defaultOptions_def)
qed

text \<open>
  C7. When \<open>pages\<close> is given and every index in it lies outside the source's pages
  (the empty list included), \<open>merge\<close> leaves the target's body elements and its page
  count as they were. The method has no \<open>throw\<close>, and the function that models it is
  total: the call returns.
\<close>

theorem merge_empty_selection_body:
  assumes "pages options = Some requested"
    and "\<forall>i \<in> set requested. i < 0 \<or> int (getPageCount sourceDoc) \<le> i"
  shows "bodyElements (merge d sourceDoc options) = bodyElements d
       \<and> getPageCount (merge d sourceDoc options) = getPageCount d"
  by (simp add: merge_unfold selectedPages_none[OF assms] mergePrepared_fields getPageCount_eq)

theorem merge_empty_selection_body_witness:
  "bodyElements (merge exampleTarget exampleSource noPages) = [para ''t'']
   \<and> getPageCount (merge exampleTarget exampleSource noPages) = 1
   \<and> bodyElements (merge exampleTarget exampleSource farPages) = [para ''t'']
   \<and> getPageCount (merge exampleTarget exampleSource farPages) = 1"
  using merge_empty_selection_body[of noPages "[]" exampleSource exampleTarget]
    merge_empty_selection_body[of farPages "[10, 20, 30, -1]" exampleSource exampleTarget]
  by (simp add: noPages_def farPages_def getPageCount_exampleSource getPageCount_exampleTarget)
     (simp add: exampleTarget_def)

lemma mergeNamespacesLoop_keys:
  "fst ` set (mergeNamespacesLoop ns src) = fst ` set ns \<union> fst ` set src"
proof -
  have "dom (map_of (mergeNamespacesLoop ns src)) = dom (map_of src ++ map_of ns)"
    by (simp add: mergeNamespacesLoop_map)
  then show ?thesis by (auto simp add: dom_map_of_conv_image_fst)
qed

lemma firstWriter_merged:
  "firstWriter (mergeNamespacesLoop a b # rest) = firstWriter (a # b # rest)"
  by (rule ext) (simp add: mergeNamespacesLoop_map map_add_def split: option.splits)

lemma mergeAll_Cons:
  "mergeAll d ((s, options) # rest) = mergeAll (merge d s options) rest"
  by (simp add: mergeAll_def)

lemma mergeAll_namespaces_map:
  "map_of (namespaces (mergeAll d sources))
     = firstWriter (namespaces d # map (\<lambda>(s, options). namespaces s) sources)"
proof (induction sources arbitrary: d)
  case Nil
  show ?case by (rule ext) (simp add: mergeAll_def split: option.splits)
next
  case (Cons so sources)
  obtain s options where so: "so = (s, options)" by (cases so)
  show ?case
    by (simp only: so mergeAll_Cons Cons.IH merge_namespaces firstWriter_merged list.map prod.case)
qed

lemma mergeAll_namespaces_keys:
  "fst ` set (namespaces (mergeAll d sources))
     = fst ` set (namespaces d) \<union> (\<Union>so \<in> set sources. fst ` set (namespaces (fst so)))"
proof (induction sources arbitrary: d)
  case Nil
  show ?case by (simp add: mergeAll_def)
next
  case (Cons so sources)
  obtain s options where so: "so = (s, options)" by (cases so)
  have "fst ` set (namespaces (mergeAll d (so # sources)))
      = fst ` set (namespaces (merge d s options))
        \<union> (\<Union>so \<in> set sources. fst ` set (namespaces (fst so)))"
    unfolding so mergeAll_Cons by (rule Cons.IH)
  also have "fst ` set (namespaces (merge d s options))
      = fst ` set (namespaces d) \<union> fst ` set (namespaces s)"
    by (simp only: merge_namespaces mergeNamespacesLoop_keys)
  finally show ?case by (simp add: so Un_assoc)
qed

lemma mergeAll_namespaces_distinct:
  "distinct (map fst (namespaces d)) \<Longrightarrow> distinct (map fst (namespaces (mergeAll d sources)))"
proof (induction sources arbitrary: d)
  case Nil
  then show ?case by (simp add: mergeAll_def)
next
  case (Cons so sources)
  obtain s options where so: "so = (s, options)" by (cases so)
  show ?case
    unfolding so mergeAll_Cons
    by (rule Cons.IH) (simp add: merge_namespaces mergeNamespacesLoop_distinct Cons.prems)
qed

text \<open>
  C8. After any sequence of merges into one target, looking a key up in the target's
  namespace declarations gives the value of the first document, among the target and
  then the sources in the order they were merged, that declares the key; the keys are
  the union of the target's and every source's; and keys that were unique stay unique.
\<close>

theorem merge_namespaces_first_writer:
  "map_of (namespaces (mergeAll d sources))
     = firstWriter (namespaces d # map (\<lambda>(s, options). namespaces s) sources)
   \<and> fst ` set (namespaces (mergeAll d sources))
     = fst ` set (namespaces d) \<union> (\<Union>so \<in> set sources. fst ` set (namespaces (fst so)))
   \<and> (distinct (map fst (namespaces d))
      \<longrightarrow> distinct (map fst (namespaces (mergeAll d sources))))"
proof (intro conjI impI)
  show "map_of (namespaces (mergeAll d sources))
     = firstWriter (namespaces d # map (\<lambda>(s, options). namespaces s) sources)"
    by (rule mergeAll_namespaces_map)
  show "fst ` set (namespaces (mergeAll d sources))
     = fst ` set (namespaces d) \<union> (\<Union>so \<in> set sources. fst ` set (namespaces (fst so)))"
    by (rule mergeAll_namespaces_keys)
  show "distinct (map fst (namespaces d)) \<Longrightarrow> distinct (map fst (namespaces (mergeAll d sources)))"
    by (rule mergeAll_namespaces_distinct)
qed

theorem merge_namespaces_first_writer_witness:
  "map_of (namespaces (mergeAll nsTarget [(nsSourceA, defaultOptions), (nsSourceB, noPages)])) ''xmlns:w''
     = Some ''urn:target''
   \<and> map_of (namespaces (mergeAll nsTarget [(nsSourceA, defaultOptions), (nsSourceB, noPages)])) ''xmlns:r''
     = Some ''urn:a''
   \<and> map_of (namespaces (mergeAll nsTarget [(nsSourceA, defaultOptions), (nsSourceB, noPages)])) ''xmlns:w14''
     = Some ''urn:b''
   \<and> fst ` set (namespaces (mergeAll nsTarget [(nsSourceA, defaultOptions), (nsSourceB, noPages)]))
     = {''xmlns:w'', ''xmlns:r'', ''xmlns:w14''}
   \<and> distinct (map fst (namespaces (mergeAll nsTarget [(nsSourceA, defaultOptions), (nsSourceB, noPages)])))"
proof -
  let ?r = "mergeAll nsTarget [(nsSourceA, defaultOptions), (nsSourceB, noPages)]"
  note t = merge_namespaces_first_writer[of nsTarget "[(nsSourceA, defaultOptions), (nsSourceB, noPages)]"]
  have m: "map_of (namespaces ?r)
      = firstWriter (namespaces nsTarget
          # map (\<lambda>(s, options). namespaces s) [(nsSourceA, defaultOptions), (nsSourceB, noPages)])"
    using t by blast
  have k: "fst ` set (namespaces ?r) = fst ` set (namespaces nsTarget)
      \<union> (\<Union>so \<in> set [(nsSourceA, defaultOptions), (nsSourceB, noPages)]. fst ` set (namespaces (fst so)))"
    using t by blast
  have "distinct (map fst (namespaces nsTarget)) \<longrightarrow> distinct (map fst (namespaces ?r))"
    using t by blast
  then have d: "distinct (map fst (namespaces ?r))" by (simp add: nsTarget_def)
  have 1: "map_of (namespaces ?r) ''xmlns:w'' = Some ''urn:target''"
    and 2: "map_of (namespaces ?r) ''xmlns:r'' = Some ''urn:a''"
    and 3: "map_of (namespaces ?r) ''xmlns:w14'' = Some ''urn:b''"
    unfolding m by (simp_all add: nsTarget_def nsSourceA_def nsSourceB_def)
  have 4: "fst ` set (namespaces ?r) = {''xmlns:w'', ''xmlns:r'', ''xmlns:w14''}"
    unfolding k by (auto simp add: nsTarget_def nsSourceA_def nsSourceB_def)
  from 1 2 3 4 d show ?thesis by blast
qed

lemma update_fresh: "k \<notin> fst ` set al \<Longrightarrow> AList.update k v al = al @ [(k, v)]"
  by (induction al) auto

lemma copyFilesLoop_fresh:
  "distinct (map fst src) \<Longrightarrow> fst ` set fs \<inter> fst ` set src = {} \<Longrightarrow>
   copyFilesLoop fs src = fs @ filter (\<lambda>(path, content). path \<noteq> ''word/document.xml'') src"
proof (induction src arbitrary: fs)
  case Nil
  show ?case by simp
next
  case (Cons pc src)
  obtain p c where pc: "pc = (p, c)" by (cases pc)
  have d: "distinct (map fst src)" and pn: "p \<notin> fst ` set src" and pf: "p \<notin> fst ` set fs"
    using Cons.prems by (auto simp add: pc)
  show ?case
  proof (cases "p = ''word/document.xml''")
    case True
    have "copyFilesLoop fs src = fs @ filter (\<lambda>(path, content). path \<noteq> ''word/document.xml'') src"
      using Cons.prems d by (intro Cons.IH) auto
    with True show ?thesis by (simp add: pc)
  next
    case False
    have "copyFilesLoop (fs @ [(p, c)]) src
        = (fs @ [(p, c)]) @ filter (\<lambda>(path, content). path \<noteq> ''word/document.xml'') src"
      using Cons.prems d pn by (intro Cons.IH) auto
    with False pf show ?thesis by (simp add: pc update_fresh)
  qed
qed

lemma mergePrepared_pristine:
  assumes "bodyElements d = []" "files d = []" "distinct (map fst (files s))"
  shows "sectPr (mergePrepared d s) = (case sectPr d of None \<Rightarrow> sectPr s | Some own \<Rightarrow> Some own)"
    and "files (mergePrepared d s) = filter (\<lambda>(path, content). path \<noteq> ''word/document.xml'') (files s)"
  using assms copyFilesLoop_fresh[of "files s" "[]"]
  by (simp_all add: mergePrepared_def mergeNamespaces_def copyDocumentStructure_def Let_def
      cloneNode_def split: option.splits)

text \<open>
  C9, as amended. A merge whose page selection is empty still sets the dirty flag and
  still unions the source's namespace declarations into the target (the target's values
  win), and when the target has no body element and an empty part store it copies
  every part of the source except \<open>word/document.xml\<close>, and takes the source's section
  properties when it has none of its own; a target that has section properties keeps
  them. The source's parts have one entry per path, as the keys of a \<open>Map\<close> do.
\<close>

theorem merge_empty_selection_effects:
  assumes "pages options = Some requested"
    and "\<forall>i \<in> set requested. i < 0 \<or> int (getPageCount sourceDoc) \<le> i"
    and "distinct (map fst (files sourceDoc))"
  shows "dirty (merge d sourceDoc options) = True
       \<and> map_of (namespaces (merge d sourceDoc options))
           = map_of (namespaces sourceDoc) ++ map_of (namespaces d)
       \<and> (bodyElements d = [] \<and> files d = [] \<longrightarrow>
            sectPr (merge d sourceDoc options)
              = (case sectPr d of None \<Rightarrow> sectPr sourceDoc | Some own \<Rightarrow> Some own)
            \<and> files (merge d sourceDoc options)
              = filter (\<lambda>(path, content). path \<noteq> ''word/document.xml'') (files sourceDoc))"
proof -
  have m: "merge d sourceDoc options = mergePrepared d sourceDoc"
    by (simp add: merge_unfold selectedPages_none[OF assms(1,2)])
  show ?thesis
    unfolding m
    by (simp add: mergePrepared_fields mergeNamespacesLoop_map mergePrepared_pristine[OF _ _ assms(3)])
qed

lemma seedSource_eq:
  "seedSource = \<lparr>files = [(''word/document.xml'', seedXml)], bodyElements = [],
     documentParsed = exampleParser seedXml, dirty = False, namespaces = [],
     sectPr = Some (Element ''w:sectPr'' None [])\<rparr>"
  by (simp add: seedSource_def fromBuffer_def readZip_def readZipText_def endsWith_def
      newDocument_def parseDocument_def Let_def exampleParser_def)
     (simp add: seedXml_def)

lemma letterSource_eq:
  "letterSource = \<lparr>files = [(''word/styles.xml'', ''<w:styles/>''), (''word/document.xml'', letterXml)],
     bodyElements = [Element ''w:p'' None []],
     documentParsed = exampleParser letterXml, dirty = False, namespaces = [],
     sectPr = Some (Element ''w:sectPr'' None [Element ''w:pgSz'' None []])\<rparr>"
  by (simp add: letterSource_def fromBuffer_def readZip_def readZipText_def endsWith_def
      newDocument_def parseDocument_def Let_def exampleParser_def)
     (simp add: letterXml_def seedXml_def)

lemma seeded_eq:
  "seeded = \<lparr>files = [], bodyElements = [], documentParsed = [], dirty = True, namespaces = [],
     sectPr = Some (Element ''w:sectPr'' None [])\<rparr>"
  by (simp add: seeded_def merge_unfold selectedPages_def noPages_def mergePrepared_def
      mergeNamespaces_def copyDocumentStructure_def Let_def cloneNode_def seedSource_eq
      create_def newDocument_def)

theorem merge_empty_selection_effects_counterexample:
  "bodyElements seeded = [] \<and> files seeded = []
   \<and> sectPr letterSource = Some (Element ''w:sectPr'' None [Element ''w:pgSz'' None []])
   \<and> sectPr (merge seeded letterSource noPages) = Some (Element ''w:sectPr'' None [])
   \<and> sectPr (merge seeded letterSource noPages) \<noteq> sectPr letterSource"
  by (simp add: merge_unfold selectedPages_def noPages_def mergePrepared_def
      mergeNamespaces_def copyDocumentStructure_def Let_def cloneNode_def seeded_eq
      letterSource_eq)

theorem merge_empty_selection_effects_witness:
  "dirty (merge newDocument letterSource noPages) = True
   \<and> sectPr (merge newDocument letterSource noPages)
       = Some (Element ''w:sectPr'' None [Element ''w:pgSz'' None []])
   \<and> files (merge newDocument letterSource noPages) = [(''word/styles.xml'', ''<w:styles/>'')]
   \<and> bodyElements (merge newDocument letterSource noPages) = []"
proof -
  have h1: "pages noPages = Some []" by (simp add: noPages_def)
  have h2: "\<forall>i \<in> set []. i < 0 \<or> int (getPageCount letterSource) \<le> i" by simp
  have h3: "distinct (map fst (files letterSource))" by (simp add: letterSource_eq)
  note t = merge_empty_selection_effects[OF h1 h2 h3, of newDocument]
  have 1: "dirty (merge newDocument letterSource noPages) = True" using t by blast
  have "bodyElements newDocument = [] \<and> files newDocument = [] \<longrightarrow>
            sectPr (merge newDocument letterSource noPages)
              = (case sectPr newDocument of None \<Rightarrow> sectPr letterSource | Some own \<Rightarrow> Some own)
            \<and> files (merge newDocument letterSource noPages)
              = filter (\<lambda>(path, content). path \<noteq> ''word/document.xml'') (files letterSource)"
    using t by blast
  then have 2: "sectPr (merge newDocument letterSource noPages)
       = Some (Element ''w:sectPr'' None [Element ''w:pgSz'' None []])"
    and 3: "files (merge newDocument letterSource noPages) = [(''word/styles.xml'', ''<w:styles/>'')]"
    by (simp_all add: newDocument_def letterSource_eq)
  have 4: "bodyElements (merge newDocument letterSource noPages) = []"
    by (simp add: merge_unfold selectedPages_def noPages_def mergePrepared_fields newDocument_def)
  from 1 2 3 4 show ?thesis by blast
qed

section \<open>Saving\<close>

lemma filesOk_update:
  "filesOk fs \<Longrightarrow> \<not> endsWith path CHR ''/'' \<Longrightarrow> content \<noteq> [] \<Longrightarrow>
   filesOk (AList.update path content fs)"
proof -
  assume a: "filesOk fs" "\<not> endsWith path CHR ''/''" "content \<noteq> []"
  have "set (AList.update path content fs) \<subseteq> insert (path, content) (set fs)"
    by (induction fs) auto
  then show ?thesis
    using a by (auto simp add: filesOk_def AList.distinct_update list_all_iff)
qed

lemma readZipLoop_ok: "filesOk fs \<Longrightarrow> filesOk (readZipLoop fs result)"
  by (induction result arbitrary: fs) (auto simp add: filesOk_update)

lemma copyFilesLoop_ok: "filesOk fs \<Longrightarrow> filesOk src \<Longrightarrow> filesOk (copyFilesLoop fs src)"
proof (induction src arbitrary: fs)
  case Nil
  then show ?case by simp
next
  case (Cons pc src)
  obtain p c where pc: "pc = (p, c)" by (cases pc)
  have s: "filesOk src" and p: "\<not> endsWith p CHR ''/''" "c \<noteq> []"
    using Cons.prems(2) by (auto simp add: filesOk_def pc)
  show ?case
    using Cons.IH[OF _ s] Cons.prems(1) filesOk_update[OF Cons.prems(1) p]
    by (simp add: pc)
qed

lemma writeZipLoop_ok:
  "filesOk (zipData @ fs) \<Longrightarrow> writeZipLoop zipData fs = zipData @ fs"
proof (induction fs arbitrary: zipData)
  case Nil
  show ?case by simp
next
  case (Cons pc fs)
  obtain p c where pc: "pc = (p, c)" by (cases pc)
  have ok: "\<not> endsWith p CHR ''/''" "c \<noteq> []" and fresh: "p \<notin> fst ` set zipData"
    using Cons.prems by (auto simp add: filesOk_def pc)
  have "writeZipLoop (zipData @ [(p, c)]) fs = (zipData @ [(p, c)]) @ fs"
    using Cons.prems by (intro Cons.IH) (simp add: pc)
  with ok fresh show ?case by (simp add: pc update_fresh)
qed

lemma writeZip_ok: "filesOk fs \<Longrightarrow> writeZip fs = fs"
  using writeZipLoop_ok[of "[]" fs] by (simp add: writeZip_def)

lemma xmlDeclaration_nonempty: "xmlDeclaration \<noteq> []"
  by (simp add: xmlDeclaration_def)

lemma created_nonempty:
  "createContentTypes sx \<noteq> []" "createRootRels sx \<noteq> []" "createDocumentRels sx \<noteq> []"
  by (simp_all add: createContentTypes_def createRootRels_def createDocumentRels_def Let_def
      xmlDeclaration_nonempty)

lemma endsWith_literals:
  "\<not> endsWith ''[Content_Types].xml'' CHR ''/''"
  "\<not> endsWith ''_rels/.rels'' CHR ''/''"
  "\<not> endsWith ''word/document.xml'' CHR ''/''"
  "\<not> endsWith ''word/_rels/document.xml.rels'' CHR ''/''"
  by (simp_all add: endsWith_def)

text \<open>One step of \<open>_ensureBasicStructure\<close>: the part is written when the path is absent.\<close>

lemma ensure_step:
  assumes "filesOk fs" "\<not> endsWith path CHR ''/''" "content \<noteq> []"
  shows "filesOk (if \<not> (path \<in> set (map fst fs)) then writeZipText fs path content else fs)"
    and "fst ` set (if \<not> (path \<in> set (map fst fs)) then writeZipText fs path content else fs)
           = insert path (fst ` set fs)"
  using assms by (auto simp add: writeZipText_def filesOk_update AList.dom_update)

lemma ensureBasicStructure_files:
  "files (ensureBasicStructure sx d) =
     (let f1 = (if \<not> (''[Content_Types].xml'' \<in> set (map fst (files d)))
                then writeZipText (files d) ''[Content_Types].xml'' (createContentTypes sx)
                else files d);
          f2 = (if \<not> (''_rels/.rels'' \<in> set (map fst f1))
                then writeZipText f1 ''_rels/.rels'' (createRootRels sx) else f1)
      in if \<not> (''word/_rels/document.xml.rels'' \<in> set (map fst f2))
         then writeZipText f2 ''word/_rels/document.xml.rels'' (createDocumentRels sx) else f2)"
  by (simp add: ensureBasicStructure_def Let_def)

lemma ensureBasicStructure_ok:
  assumes "filesOk (files d)"
  shows "filesOk (files (ensureBasicStructure sx d))"
    and "fst ` set (files (ensureBasicStructure sx d))
     = fst ` set (files d) \<union> {''[Content_Types].xml'', ''_rels/.rels'', ''word/_rels/document.xml.rels''}"
proof -
  define f1 where "f1 = (if \<not> (''[Content_Types].xml'' \<in> set (map fst (files d)))
                then writeZipText (files d) ''[Content_Types].xml'' (createContentTypes sx)
                else files d)"
  define f2 where "f2 = (if \<not> (''_rels/.rels'' \<in> set (map fst f1))
                then writeZipText f1 ''_rels/.rels'' (createRootRels sx) else f1)"
  define f3 where "f3 = (if \<not> (''word/_rels/document.xml.rels'' \<in> set (map fst f2))
         then writeZipText f2 ''word/_rels/document.xml.rels'' (createDocumentRels sx) else f2)"
  have e: "files (ensureBasicStructure sx d) = f3"
    unfolding ensureBasicStructure_files Let_def f3_def f2_def f1_def ..
  have o1: "filesOk f1" and k1: "fst ` set f1 = insert ''[Content_Types].xml'' (fst ` set (files d))"
    unfolding f1_def by (rule ensure_step[OF assms endsWith_literals(1) created_nonempty(1)])+
  have o2: "filesOk f2" and k2: "fst ` set f2 = insert ''_rels/.rels'' (fst ` set f1)"
    unfolding f2_def by (rule ensure_step[OF o1 endsWith_literals(2) created_nonempty(2)])+
  have o3: "filesOk f3" and k3: "fst ` set f3 = insert ''word/_rels/document.xml.rels'' (fst ` set f2)"
    unfolding f3_def by (rule ensure_step[OF o2 endsWith_literals(4) created_nonempty(3)])+
  show "filesOk (files (ensureBasicStructure sx d))" unfolding e by (rule o3)
  have "fst ` set f3 = insert ''word/_rels/document.xml.rels''
      (insert ''_rels/.rels'' (insert ''[Content_Types].xml'' (fst ` set (files d))))"
    by (simp only: k3 k2 k1)
  then show "fst ` set (files (ensureBasicStructure sx d))
     = fst ` set (files d) \<union> {''[Content_Types].xml'', ''_rels/.rels'', ''word/_rels/document.xml.rels''}"
    unfolding e by (simp only: Un_insert_right Un_empty_right insert_commute)
qed

lemma updateDocumentXml_ok:
  "filesOk (files d) \<Longrightarrow> filesOk (files (updateDocumentXml sx d))"
  by (simp add: updateDocumentXml_def Let_def writeZipText_def filesOk_update
      endsWith_literals xmlDeclaration_nonempty)

lemma updateDocumentXml_keys:
  "fst ` set (files (updateDocumentXml sx d)) = insert ''word/document.xml'' (fst ` set (files d))"
  by (simp add: updateDocumentXml_def Let_def writeZipText_def AList.dom_update)

lemma updateFiles_ok: "filesOk (files d) \<Longrightarrow> filesOk (files (updateFiles sx d))"
  by (simp add: updateFiles_def updateDocumentXml_ok ensureBasicStructure_ok(1))

lemma updateFiles_keys:
  assumes "filesOk (files d)" "dirty d \<or> files d = []"
  shows "fst ` set (files (updateFiles sx d)) = fst ` set (files d) \<union> set requiredParts"
proof -
  have "updateFiles sx d = updateDocumentXml sx (ensureBasicStructure sx d)"
    using assms(2) by (auto simp add: updateFiles_def)
  then have "fst ` set (files (updateFiles sx d))
      = insert ''word/document.xml'' (fst ` set (files d)
          \<union> {''[Content_Types].xml'', ''_rels/.rels'', ''word/_rels/document.xml.rels''})"
    by (simp only: updateDocumentXml_keys ensureBasicStructure_ok(2)[OF assms(1)])
  also have "\<dots> = fst ` set (files d) \<union> set requiredParts"
    unfolding requiredParts_def
    by (simp only: list.set Un_insert_right Un_insert_left Un_empty_right insert_commute)
  finally show ?thesis .
qed

lemma updateFiles_clean: "\<not> dirty d \<Longrightarrow> files d \<noteq> [] \<Longrightarrow> updateFiles sx d = d"
  by (simp add: updateFiles_def)

lemma parseDocument_files: "files (parseDocument px d xml) = files d"
  by (simp add: parseDocument_def Let_def split: option.splits)

lemma fromBuffer_files: "files (fromBuffer px result) = readZip result"
  by (simp add: fromBuffer_def Let_def parseDocument_files newDocument_def split: option.splits)

lemma removePage_frame:
  "files (snd (removePage d idx)) = files d"
  "namespaces (snd (removePage d idx)) = namespaces d"
  by (simp_all add: removePage_def Let_def)

lemma mergePrepared_files_ok:
  "filesOk (files d) \<Longrightarrow> filesOk (files s) \<Longrightarrow> filesOk (files (mergePrepared d s))"
proof -
  assume a: "filesOk (files d)" "filesOk (files s)"
  have "filesOk []" by (simp add: filesOk_def)
  then have "filesOk (copyFilesLoop [] (files s))" using a(2) by (rule copyFilesLoop_ok)
  then show ?thesis
    using a(1) by (auto simp add: mergePrepared_def mergeNamespaces_def copyDocumentStructure_def
      Let_def split: option.splits)
qed

lemma merge_files: "files (merge d s options) = files (mergePrepared d s)"
  by (simp add: merge_unfold)

lemma namespacesOk_update:
  "namespacesOk ns \<Longrightarrow> take 5 key = ''xmlns'' \<Longrightarrow> namespacesOk (AList.update key v ns)"
proof -
  assume a: "namespacesOk ns" "take 5 key = ''xmlns''"
  have "set (AList.update key v ns) \<subseteq> insert (key, v) (set ns)"
    by (induction ns) auto
  then show ?thesis
    using a by (auto simp add: namespacesOk_def AList.distinct_update list_all_iff)
qed

lemma xmlns_prefix: "take 7 key = ''@_xmlns'' \<Longrightarrow> take 5 (drop 2 key) = ''xmlns''"
proof -
  assume "take 7 key = ''@_xmlns''"
  then have "drop 2 (take 7 key) = ''xmlns''" by simp
  then show ?thesis by (simp add: drop_take)
qed

lemma parseNamespacesLoop_ok: "namespacesOk ns \<Longrightarrow> namespacesOk (parseNamespacesLoop ns attrs)"
  by (induction attrs arbitrary: ns) (auto simp add: namespacesOk_update xmlns_prefix)

lemma mergeNamespacesLoop_ok:
  "namespacesOk ns \<Longrightarrow> namespacesOk src \<Longrightarrow> namespacesOk (mergeNamespacesLoop ns src)"
proof (induction src arbitrary: ns)
  case Nil
  then show ?case by simp
next
  case (Cons kv src)
  obtain k v where kv: "kv = (k, v)" by (cases kv)
  have s: "namespacesOk src" and k: "take 5 k = ''xmlns''"
    using Cons.prems(2) by (auto simp add: namespacesOk_def kv)
  show ?case
    using Cons.IH[OF _ s] Cons.prems(1) namespacesOk_update[OF Cons.prems(1) k]
    by (simp add: kv)
qed

lemma parseDocument_namespaces_ok:
  "namespacesOk (namespaces d) \<Longrightarrow> namespacesOk (namespaces (parseDocument px d xml))"
  by (simp add: parseDocument_def Let_def parseNamespacesLoop_ok split: option.splits)

lemma fromBuffer_namespaces_ok: "namespacesOk (namespaces (fromBuffer px result))"
proof -
  have "namespacesOk (namespaces (newDocument\<lparr>files := readZip result\<rparr>))"
    by (simp add: newDocument_def namespacesOk_def)
  then show ?thesis
    by (simp add: fromBuffer_def Let_def parseDocument_namespaces_ok split: option.splits)
qed

text \<open>Every document a caller can hold has a well-formed part store and namespace
  declarations whose keys are unique and begin with \<open>xmlns\<close>.\<close>

lemma reachable_invariant:
  "reachable d \<Longrightarrow> filesOk (files d) \<and> namespacesOk (namespaces d)"
proof (induction rule: reachable.induct)
  case reach_create
  show ?case by (simp add: create_def newDocument_def filesOk_def namespacesOk_def)
next
  case (reach_fromBuffer parseXml result)
  have "filesOk (readZipLoop [] result)"
    by (rule readZipLoop_ok) (simp add: filesOk_def)
  then show ?case
    by (simp add: fromBuffer_files fromBuffer_namespaces_ok readZip_def)
next
  case (reach_addPageBreak d)
  then show ?case by (simp add: addPageBreak_def)
next
  case (reach_removePage d idx)
  then show ?case by (simp add: removePage_frame)
next
  case (reach_merge d sourceDoc options)
  then show ?case
    by (simp add: merge_files mergePrepared_files_ok merge_namespaces mergeNamespacesLoop_ok)
next
  case (reach_toBuffer d stringifyXml)
  have "namespaces (updateFiles stringifyXml d) = namespaces d"
    by (simp add: updateFiles_def updateDocumentXml_def ensureBasicStructure_def Let_def)
  with reach_toBuffer show ?case
    by (simp add: toBuffer_def Let_def updateFiles_ok)
qed

text \<open>
  C5, as amended. For every document a caller can hold (\<open>reachable\<close>: made by \<open>create\<close>
  or \<open>fromBuffer\<close> and changed by \<open>addPageBreak\<close>, \<open>removePage\<close>, \<open>merge\<close> and \<open>toBuffer\<close>)
  that is dirty or has an empty part store, the parts \<open>toBuffer\<close> hands to the compressor
  include \<open>[Content_Types].xml\<close>, \<open>_rels/.rels\<close>, \<open>word/document.xml\<close> and
  \<open>word/_rels/document.xml.rels\<close>. A document that is not dirty and has parts (one loaded
  from an archive and not changed since) is written with exactly the parts it holds:
  \<open>_updateFiles\<close> returns before it creates anything, so a part the archive lacked stays
  absent.
\<close>

theorem toBuffer_required_parts:
  assumes "reachable d"
  shows "(dirty d \<or> files d = []
            \<longrightarrow> set requiredParts \<subseteq> fst ` set (fst (toBuffer stringifyXml d)))
       \<and> (\<not> dirty d \<and> files d \<noteq> [] \<longrightarrow> fst (toBuffer stringifyXml d) = files d)"
proof (intro conjI impI)
  have ok: "filesOk (files d)" using reachable_invariant[OF assms] by simp
  have w: "fst (toBuffer stringifyXml d) = files (updateFiles stringifyXml d)"
    by (simp add: toBuffer_def Let_def writeZip_ok[OF updateFiles_ok[OF ok]])
  show "set requiredParts \<subseteq> fst ` set (fst (toBuffer stringifyXml d))"
    if "dirty d \<or> files d = []"
    unfolding w updateFiles_keys[OF ok that] by (rule Un_upper2)
  show "fst (toBuffer stringifyXml d) = files d" if "\<not> dirty d \<and> files d \<noteq> []"
    unfolding w using that by (simp add: updateFiles_clean)
qed

theorem toBuffer_required_parts_counterexample:
  "seedSource = fromBuffer exampleParser [(''word/document.xml'', seedXml)]
   \<and> fst (toBuffer exampleBuilder seedSource) = [(''word/document.xml'', seedXml)]
   \<and> ''[Content_Types].xml'' \<notin> fst ` set (fst (toBuffer exampleBuilder seedSource))
   \<and> ''_rels/.rels'' \<notin> fst ` set (fst (toBuffer exampleBuilder seedSource))
   \<and> ''word/_rels/document.xml.rels'' \<notin> fst ` set (fst (toBuffer exampleBuilder seedSource))"
proof -
  have "fst (toBuffer exampleBuilder seedSource) = [(''word/document.xml'', seedXml)]"
    by (simp add: toBuffer_def updateFiles_def Let_def seedSource_eq writeZip_def endsWith_def)
       (simp add: seedXml_def)
  then show ?thesis by (simp add: seedSource_def)
qed

theorem toBuffer_required_parts_witness:
  "map fst (fst (toBuffer exampleBuilder create))
     = [''[Content_Types].xml'', ''_rels/.rels'', ''word/_rels/document.xml.rels'', ''word/document.xml'']
   \<and> set requiredParts \<subseteq> fst ` set (fst (toBuffer exampleBuilder create))
   \<and> fst (toBuffer exampleBuilder seedSource) = files seedSource"
proof -
  have r1: "reachable create" by (rule reach_create)
  have r2: "reachable seedSource" unfolding seedSource_def by (rule reach_fromBuffer)
  have "dirty create \<or> files create = []
      \<longrightarrow> set requiredParts \<subseteq> fst ` set (fst (toBuffer exampleBuilder create))"
    using toBuffer_required_parts[OF r1, of exampleBuilder] by blast
  then have 1: "set requiredParts \<subseteq> fst ` set (fst (toBuffer exampleBuilder create))"
    by (simp add: create_def newDocument_def)
  have "\<not> dirty seedSource \<and> files seedSource \<noteq> []
      \<longrightarrow> fst (toBuffer exampleBuilder seedSource) = files seedSource"
    using toBuffer_required_parts[OF r2, of exampleBuilder] by blast
  then have 2: "fst (toBuffer exampleBuilder seedSource) = files seedSource"
    by (simp add: seedSource_eq)
  have 3: "map fst (fst (toBuffer exampleBuilder create))
     = [''[Content_Types].xml'', ''_rels/.rels'', ''word/_rels/document.xml.rels'', ''word/document.xml'']"
    by (simp add: toBuffer_def updateFiles_def updateDocumentXml_def ensureBasicStructure_def
        Let_def create_def newDocument_def writeZipText_def writeZip_def endsWith_def
        createContentTypes_def createRootRels_def createDocumentRels_def xmlDeclaration_def)
  from 1 2 3 show ?thesis by blast
qed

section \<open>Template substitution\<close>

lemma brace_not_key: "\<not> isKeyChar CHR ''{''" "\<not> isKeyChar CHR ''}''"
  by (simp_all add: isKeyChar_def)

lemma takeWhile_stop: "\<not> P x \<Longrightarrow> takeWhile P (xs @ x # ys) = takeWhile P xs"
  by (induction xs) simp_all

lemma dropWhile_stop: "\<not> P x \<Longrightarrow> dropWhile P (xs @ x # ys) = dropWhile P xs @ x # ys"
  by (induction xs) simp_all

lemma key_scan:
  assumes "\<forall>c \<in> set key. isKeyChar c"
  shows "takeWhile isKeyChar (key @ CHR ''}'' # z) = key"
    and "dropWhile isKeyChar (key @ CHR ''}'' # z) = CHR ''}'' # z"
  using assms by (simp_all add: takeWhile_append2 dropWhile_append2 brace_not_key)

text \<open>A placeholder is replaced where it stands, whatever comes before and after it.\<close>

lemma substitute_placeholder:
  assumes "key \<noteq> []" "\<forall>c \<in> set key. isKeyChar c"
  shows "substitute r (a @ CHR ''{'' # key @ CHR ''}'' # b)
           = substitute r a @ r key @ substitute r b"
proof (induction r a rule: substitute.induct)
  case (1 r)
  show ?case using assms(1) key_scan[OF assms(2), of b] by (simp add: brace_not_key)
next
  case (2 r c cs)
  let ?z = "CHR ''{'' # key @ CHR ''}'' # b"
  let ?m = "c = CHR ''{'' \<and> takeWhile isKeyChar cs \<noteq> [] \<and> dropWhile isKeyChar cs \<noteq> []
         \<and> hd (dropWhile isKeyChar cs) = CHR ''}''"
  have tw: "takeWhile isKeyChar (cs @ ?z) = takeWhile isKeyChar cs"
    by (rule takeWhile_stop) (rule brace_not_key)
  have dw: "dropWhile isKeyChar (cs @ ?z) = dropWhile isKeyChar cs @ ?z"
    by (rule dropWhile_stop) (rule brace_not_key)
  have cond: "(c = CHR ''{'' \<and> takeWhile isKeyChar (cs @ ?z) \<noteq> []
      \<and> dropWhile isKeyChar (cs @ ?z) \<noteq> [] \<and> hd (dropWhile isKeyChar (cs @ ?z)) = CHR ''}'') = ?m"
  proof -
    define dws where "dws = dropWhile isKeyChar cs"
    have "(dws @ ?z \<noteq> [] \<and> hd (dws @ ?z) = CHR ''}'') = (dws \<noteq> [] \<and> hd dws = CHR ''}'')"
      by (cases dws) simp_all
    then show ?thesis unfolding tw dw dws_def by blast
  qed
  have unf_z: "substitute r ((c # cs) @ ?z)
      = (if ?m then r (takeWhile isKeyChar (cs @ ?z)) @ substitute r (tl (dropWhile isKeyChar (cs @ ?z)))
         else c # substitute r (cs @ ?z))"
    by (simp only: append_Cons substitute.simps(2) cond)
  have unf: "substitute r (c # cs)
      = (if ?m then r (takeWhile isKeyChar cs) @ substitute r (tl (dropWhile isKeyChar cs))
         else c # substitute r cs)"
    by (simp only: substitute.simps(2))
  show ?case
  proof (cases ?m)
    case True
    then have ne: "dropWhile isKeyChar cs \<noteq> []" by blast
    have tl: "tl (dropWhile isKeyChar (cs @ ?z)) = tl (dropWhile isKeyChar cs) @ ?z"
      unfolding dw using ne by (cases "dropWhile isKeyChar cs") simp_all
    have "substitute r ((c # cs) @ ?z)
        = r (takeWhile isKeyChar (cs @ ?z)) @ substitute r (tl (dropWhile isKeyChar (cs @ ?z)))"
      unfolding unf_z by (rule if_P[OF True])
    also have "\<dots> = r (takeWhile isKeyChar cs) @ substitute r (tl (dropWhile isKeyChar cs) @ ?z)"
      by (simp only: tw tl)
    also have "\<dots> = r (takeWhile isKeyChar cs)
        @ (substitute r (tl (dropWhile isKeyChar cs)) @ r key @ substitute r b)"
      by (simp only: "2.IH"(1)[OF True])
    also have "\<dots> = (r (takeWhile isKeyChar cs) @ substitute r (tl (dropWhile isKeyChar cs)))
        @ r key @ substitute r b"
      by (simp only: append_assoc)
    also have "r (takeWhile isKeyChar cs) @ substitute r (tl (dropWhile isKeyChar cs))
        = substitute r (c # cs)"
      unfolding unf by (rule if_P[OF True, symmetric])
    finally show ?thesis .
  next
    case False
    have "substitute r ((c # cs) @ ?z) = c # substitute r (cs @ ?z)"
      unfolding unf_z by (rule if_not_P[OF False])
    also have "\<dots> = c # (substitute r cs @ r key @ substitute r b)"
      by (simp only: "2.IH"(2)[OF False])
    also have "\<dots> = (c # substitute r cs) @ r key @ substitute r b"
      by (simp only: append_Cons)
    also have "c # substitute r cs = substitute r (c # cs)"
      unfolding unf by (rule if_not_P[OF False, symmetric])
    finally show ?thesis .
  qed
qed

lemma substitute_no_match: "\<not> hasMatch s \<Longrightarrow> substitute r s = s"
  by (induction s rule: hasMatch.induct) (auto split: if_splits)

lemma hasMatch_nonempty: "hasMatch s \<Longrightarrow> s \<noteq> []"
  by auto

lemma withText_run: "isTextRun (withText run t)" "runText (withText run t) = t"
  by (simp_all add: withText_def isTextRun_def runText_def)

lemma replaceRuns_written:
  "filter isTextRun (replaceRuns t True cs) = []"
  by (induction cs) simp_all

lemma replaceRuns_runs:
  "filter isTextRun cs \<noteq> [] \<Longrightarrow>
   \<exists>run. isTextRun run \<and> runText run = t \<and> filter isTextRun (replaceRuns t False cs) = [run]"
proof (induction cs)
  case Nil
  then show ?case by simp
next
  case (Cons c cs)
  show ?case
  proof (cases "isTextRun c")
    case True
    then show ?thesis
      using withText_run[of c t] by (simp add: replaceRuns_written)
  next
    case False
    with Cons show ?thesis by simp
  qed
qed

text \<open>The text of a rendered paragraph is the text of the paragraph after substitution, and
  a paragraph that was rewritten holds one text run.\<close>

lemma renderParagraph_text:
  "paragraphText (renderParagraph numberText data options p)
     = substitute (resolve numberText data options) (paragraphText p)"
proof (cases "hasMatch (paragraphText p)")
  case False
  then show ?thesis by (simp add: renderParagraph_def substitute_no_match)
next
  case True
  let ?t = "substitute (resolve numberText data options) (paragraphText p)"
  have "paragraphText p \<noteq> []" using True by (rule hasMatch_nonempty)
  then have "filter isTextRun (getChildren p ''w:p'') \<noteq> []"
    by (auto simp add: paragraphText_def filter_empty_conv)
  then obtain run where "runText run = ?t"
    "filter isTextRun (replaceRuns ?t False (getChildren p ''w:p'')) = [run]"
    using replaceRuns_runs by blast
  then show ?thesis
    using True by (simp add: renderParagraph_def paragraphText_def)
qed

lemma renderParagraph_runs:
  assumes "hasMatch (paragraphText p)"
  shows "length (filter isTextRun
           (getChildren (renderParagraph numberText data options p) ''w:p'')) = 1"
proof -
  let ?t = "substitute (resolve numberText data options) (paragraphText p)"
  have "paragraphText p \<noteq> []" using assms by (rule hasMatch_nonempty)
  then have "filter isTextRun (getChildren p ''w:p'') \<noteq> []"
    by (auto simp add: paragraphText_def filter_empty_conv)
  then obtain run where
    "filter isTextRun (replaceRuns ?t False (getChildren p ''w:p'')) = [run]"
    using replaceRuns_runs by blast
  then show ?thesis
    using assms by (simp add: renderParagraph_def)
qed

lemma hasMatch_placeholder:
  assumes "key \<noteq> []" "\<forall>c \<in> set key. isKeyChar c"
  shows "hasMatch (a @ CHR ''{'' # key @ CHR ''}'' # b)"
proof (induction a)
  case Nil
  show ?case using assms(1) key_scan[OF assms(2), of b] by (simp add: brace_not_key)
next
  case (Cons c cs)
  then show ?case by simp
qed

text \<open>Rendering keeps the paragraphs of a node, in order, and renders each.\<close>

lemma paragraphsOf_renderParagraph:
  "paragraphsOf (renderParagraph numberText data options (Element ''w:p'' a cs))
     = [renderParagraph numberText data options (Element ''w:p'' a cs)]"
  by (simp add: renderParagraph_def)

lemma paragraphsOf_renderNode:
  "paragraphsOf (renderNode numberText data options node)
     = map (renderParagraph numberText data options) (paragraphsOf node)"
proof (induction numberText data options node rule: renderNode.induct)
  case (1 numberText data options s)
  show ?case by simp
next
  case (2 numberText data options t a cs)
  show ?case
  proof (cases "t = ''w:p''")
    case True
    then show ?thesis by (simp add: paragraphsOf_renderParagraph)
  next
    case False
    have "map (\<lambda>c. paragraphsOf (renderNode numberText data options c)) cs
        = map (\<lambda>c. map (renderParagraph numberText data options) (paragraphsOf c)) cs"
      by (rule map_cong) (simp_all add: "2.IH"[OF False])
    then have "concat (map (\<lambda>c. paragraphsOf (renderNode numberText data options c)) cs)
        = concat (map (\<lambda>c. map (renderParagraph numberText data options) (paragraphsOf c)) cs)"
      by (rule arg_cong)
    then show ?thesis using False by (simp add: comp_def map_concat)
  qed
qed

lemma docParagraphs_render:
  "docParagraphs (render numberText d data options)
     = map (renderParagraph numberText data options) (docParagraphs d)"
  by (simp add: docParagraphs_def render_def paragraphsOf_renderNode comp_def map_concat)

text \<open>
  C2. Let a paragraph of the document, a body element or a paragraph inside one (in a
  table cell), hold a placeholder of a key that the data binds, cut across its text runs
  in any way: the texts of its text runs, put together in order, read \<open>before\<close>, then the
  placeholder, then \<open>after\<close> (\<open>{na\<close> and \<open>me}\<close> for the key \<open>name\<close>, whatever lies between
  the runs in the markup). After \<open>render\<close> the document has the same paragraphs in the same
  order, and that paragraph holds a single text run whose text is the substituted
  \<open>before\<close>, then the text of the value, then the substituted \<open>after\<close>: the value stands
  where the placeholder was, and neither the placeholder nor its fragments are kept.
  When the placeholder is the only text of the paragraph, the text is the value alone.
\<close>

theorem render_split_placeholder:
  assumes "j < length (docParagraphs d)"
    and "paragraphText (docParagraphs d ! j) = before @ ''{'' @ key @ ''}'' @ after"
    and "key \<noteq> []" and "\<forall>c \<in> set key. isKeyChar c"
    and "map_of data key = Some v"
  shows "length (docParagraphs (render numberText d data options)) = length (docParagraphs d)
       \<and> paragraphText (docParagraphs (render numberText d data options) ! j)
           = substitute (resolve numberText data options) before
             @ valueText numberText options v key
             @ substitute (resolve numberText data options) after
       \<and> length (filter isTextRun
            (getChildren (docParagraphs (render numberText d data options) ! j) ''w:p'')) = 1"
proof -
  let ?p = "docParagraphs d ! j"
  let ?r = "resolve numberText data options"
  have ptxt: "paragraphText ?p = before @ CHR ''{'' # key @ CHR ''}'' # after"
    using assms(2) by simp
  have rn: "docParagraphs (render numberText d data options) ! j
      = renderParagraph numberText data options ?p"
    using assms(1) by (simp add: docParagraphs_render)
  have 0: "length (docParagraphs (render numberText d data options)) = length (docParagraphs d)"
    by (simp add: docParagraphs_render)
  have "paragraphText (renderParagraph numberText data options ?p)
      = substitute ?r (before @ CHR ''{'' # key @ CHR ''}'' # after)"
    unfolding renderParagraph_text ptxt ..
  also have "\<dots> = substitute ?r before @ ?r key @ substitute ?r after"
    by (rule substitute_placeholder[OF assms(3,4)])
  also have "?r key = valueText numberText options v key"
    using assms(5) by (simp add: resolve_def)
  finally have 1: "paragraphText (docParagraphs (render numberText d data options) ! j)
           = substitute ?r before @ valueText numberText options v key @ substitute ?r after"
    unfolding rn .
  have "hasMatch (paragraphText ?p)"
    unfolding ptxt by (rule hasMatch_placeholder[OF assms(3,4)])
  then have 2: "length (filter isTextRun
      (getChildren (docParagraphs (render numberText d data options) ! j) ''w:p'')) = 1"
    unfolding rn by (rule renderParagraph_runs)
  from 0 1 2 show ?thesis by blast
qed

lemma docParagraphs_splitDoc: "docParagraphs splitDoc = [splitParagraph, greetingParagraph]"
  by (simp add: docParagraphs_def splitDoc_def splitParagraph_def greetingParagraph_def)

lemma paragraphText_examples:
  "paragraphText splitParagraph = ''{name}''"
  "paragraphText greetingParagraph = ''Dear {name},''"
  by (simp_all add: paragraphText_def splitParagraph_def greetingParagraph_def gap_def
      textRun_def isTextRun_def runText_def)

theorem render_split_placeholder_witness:
  "docParagraphs splitDoc = [splitParagraph, greetingParagraph]
   \<and> paragraphText (docParagraphs (render numberToString splitDoc [(''name'', VString ''Ivy'')]
        defaultTemplateOptions) ! 0) = ''Ivy''
   \<and> paragraphText (docParagraphs (render numberToString splitDoc [(''name'', VString ''Ivy'')]
        defaultTemplateOptions) ! 1) = ''Dear Ivy,''
   \<and> length (filter isTextRun (getChildren (docParagraphs (render numberToString splitDoc
        [(''name'', VString ''Ivy'')] defaultTemplateOptions) ! 0) ''w:p'')) = 1"
proof -
  let ?data = "[(''name'', VString ''Ivy'')]"
  let ?out = "docParagraphs (render numberToString splitDoc ?data defaultTemplateOptions)"
  have k1: "''name'' \<noteq> []" by simp
  have k2: "\<forall>c \<in> set ''name''. isKeyChar c" by (simp add: isKeyChar_def)
  have k3: "map_of ?data ''name'' = Some (VString ''Ivy'')" by simp
  have a1: "0 < length (docParagraphs splitDoc)" and b1: "1 < length (docParagraphs splitDoc)"
    by (simp_all add: docParagraphs_splitDoc)
  have a2: "paragraphText (docParagraphs splitDoc ! 0) = [] @ ''{'' @ ''name'' @ ''}'' @ []"
    by (simp add: docParagraphs_splitDoc paragraphText_examples)
  have b2: "paragraphText (docParagraphs splitDoc ! 1) = ''Dear '' @ ''{'' @ ''name'' @ ''}'' @ '',''"
    by (simp add: docParagraphs_splitDoc paragraphText_examples)
  note ta = render_split_placeholder[OF a1 a2 k1 k2 k3, of numberToString defaultTemplateOptions]
  note tb = render_split_placeholder[OF b1 b2 k1 k2 k3, of numberToString defaultTemplateOptions]
  have v: "valueText numberToString defaultTemplateOptions (VString ''Ivy'') ''name'' = ''Ivy''"
    by (simp add: valueText_def defaultTemplateOptions_def)
  have 1: "paragraphText (?out ! 0) = ''Ivy''"
    using ta by (simp add: v)
  have 2: "paragraphText (?out ! 1) = ''Dear Ivy,''"
    using tb by (simp add: v brace_not_key)
  have 3: "length (filter isTextRun (getChildren (?out ! 0) ''w:p'')) = 1"
    using ta by blast
  from docParagraphs_splitDoc 1 2 3 show ?thesis by blast
qed

end
